theory Spec2Isabelle
  imports Main
begin

section \<open>Strings of UTF-16 code units\<close>

text \<open>
  A JavaScript string is a sequence of 16-bit code units. The em dash (U+2014) and the
  en dash (U+2013) of the source do not fit into an 8-bit \<open>char\<close>, so a string is
  modelled as the list of its code units, each a natural number. ASCII text is written
  with \<open>asc\<close>.
\<close>

type_synonym jsstring = "nat list"

definition asc :: "string \<Rightarrow> jsstring" where
  "asc s = map of_char s"

definition is_digit :: "nat \<Rightarrow> bool" where
  \<comment> \<open>the class \<open>\d\<close>: 0-9\<close>
  "is_digit c = (48 \<le> c \<and> c \<le> 57)"

definition is_word :: "nat \<Rightarrow> bool" where
  \<comment> \<open>the word characters used by \<open>\b\<close>: A-Z, a-z, 0-9 and the underscore\<close>
  "is_word c = ((65 \<le> c \<and> c \<le> 90) \<or> (97 \<le> c \<and> c \<le> 122) \<or> (48 \<le> c \<and> c \<le> 57) \<or> c = 95)"

definition is_space :: "nat \<Rightarrow> bool" where
  \<comment> \<open>the class \<open>\s\<close>, also the characters removed by \<open>trim\<close>: WhiteSpace and LineTerminator of ECMAScript\<close>
  "is_space c = ((9 \<le> c \<and> c \<le> 13) \<or> c = 32 \<or> c = 160 \<or> c = 5760 \<or> (8192 \<le> c \<and> c \<le> 8202)
                 \<or> c = 8232 \<or> c = 8233 \<or> c = 8239 \<or> c = 8287 \<or> c = 12288 \<or> c = 65279)"

definition upper_cu :: "nat \<Rightarrow> nat" where
  \<comment> \<open>upper case of one code unit, on ASCII; other code units are left as they are\<close>
  "upper_cu c = (if 97 \<le> c \<and> c \<le> 122 then c - 32 else c)"

definition canon :: "bool \<Rightarrow> nat \<Rightarrow> nat" where
  \<comment> \<open>Canonicalize of the ECMAScript pattern semantics: identity without the \<open>i\<close> flag\<close>
  "canon ic c = (if ic then upper_cu c else c)"

section \<open>Regular expressions with backtracking\<close>

datatype atom =
    Chr nat
  | Digit
  | Space
  | Class "nat list"

datatype regex =
    Eps
  | Atom atom
  | Seq regex regex
  | Alt regex regex
  | Rep regex nat "nat option"
  | Group regex
  | WordB
  | Bol
  | Eol

fun cmatch :: "bool \<Rightarrow> atom \<Rightarrow> nat \<Rightarrow> bool" where
  "cmatch ic (Chr l) c = (canon ic c = canon ic l)"
| "cmatch ic Digit c = is_digit c"
| "cmatch ic Space c = is_space c"
| "cmatch ic (Class ms) c = (canon ic c \<in> set (map (canon ic) ms))"

datatype mstate = MState (pre: "nat list") (rest: "nat list") (cap: "nat list option")

fun dec :: "nat option \<Rightarrow> nat option" where
  "dec None = None"
| "dec (Some k) = Some (k - 1)"

fun rsize :: "regex \<Rightarrow> nat" where
  "rsize Eps = 1"
| "rsize (Atom a) = 1"
| "rsize (Seq a b) = rsize a + rsize b + 1"
| "rsize (Alt a b) = rsize a + rsize b + 1"
| "rsize (Rep r n m) = rsize r + n + (case m of None \<Rightarrow> 0 | Some k \<Rightarrow> k) + 1"
| "rsize (Group r) = rsize r + 1"
| "rsize WordB = 1"
| "rsize Bol = 1"
| "rsize Eol = 1"

definition word_before :: "mstate \<Rightarrow> bool" where
  "word_before s = (case pre s of [] \<Rightarrow> False | c # _ \<Rightarrow> is_word c)"

definition word_after :: "mstate \<Rightarrow> bool" where
  "word_after s = (case rest s of [] \<Rightarrow> False | c # _ \<Rightarrow> is_word c)"

function (sequential) matches :: "bool \<Rightarrow> regex \<Rightarrow> mstate \<Rightarrow> mstate list" where
  "matches ic Eps s = [s]"
| "matches ic (Atom a) s =
     (case rest s of
        [] \<Rightarrow> []
      | c # cs \<Rightarrow> if cmatch ic a c then [MState (c # pre s) cs (cap s)] else [])"
| "matches ic (Seq a b) s = concat (map (matches ic b) (matches ic a s))"
| "matches ic (Alt a b) s = matches ic a s @ matches ic b s"
| "matches ic (Rep r n m) s =
     (if m = Some 0 then [s]
      else
        let again = concat (map (\<lambda>y. if n = 0 \<and> length (rest s) \<le> length (rest y) then []
                                       else matches ic (Rep r (n - 1) (dec m)) y)
                                (matches ic r s))
        in if n \<noteq> 0 then again else again @ [s])"
| "matches ic (Group r) s =
     map (\<lambda>y. MState (pre y) (rest y) (Some (take (length (rest s) - length (rest y)) (rest s))))
         (matches ic r s)"
| "matches ic WordB s = (if word_before s \<noteq> word_after s then [s] else [])"
| "matches ic Bol s = (if pre s = [] then [s] else [])"
| "matches ic Eol s = (if rest s = [] then [s] else [])"
  by pat_completeness auto
termination
  apply (relation "inv_image (measure rsize <*lex*> measure (\<lambda>s. length (rest s))) (\<lambda>(ic, r, s). (r, s))")
  apply (auto split: option.splits)
  done


text \<open>
  \<open>matches ic r s\<close> lists the states in which a match of \<open>r\<close> starting in state \<open>s\<close>
  can end, in the order in which the backtracking matcher of ECMAScript tries them
  (the first element is the match the engine reports). A state holds the input before
  the current position (reversed), the input after it, and the text of capture group 1.
  The \<open>Rep\<close> case follows RepeatMatcher for greedy quantifiers: an iteration that
  consumes nothing is rejected once the minimum is reached.
\<close>

abbreviation Star :: "regex \<Rightarrow> regex" where
  "Star r \<equiv> Rep r 0 None"

abbreviation Plus :: "regex \<Rightarrow> regex" where
  "Plus r \<equiv> Rep r 1 None"

abbreviation Opt :: "regex \<Rightarrow> regex" where
  "Opt r \<equiv> Rep r 0 (Some 1)"

abbreviation Times :: "nat \<Rightarrow> regex \<Rightarrow> regex" where
  "Times n r \<equiv> Rep r n (Some n)"

abbreviation Range :: "nat \<Rightarrow> nat \<Rightarrow> regex \<Rightarrow> regex" where
  "Range n m r \<equiv> Rep r n (Some m)"

fun seqs :: "regex list \<Rightarrow> regex" where
  "seqs [] = Eps"
| "seqs [r] = r"
| "seqs (r # rs) = Seq r (seqs rs)"

definition lit :: "string \<Rightarrow> regex" where
  \<comment> \<open>a run of literal characters\<close>
  "lit s = seqs (map (\<lambda>c. Atom (Chr (of_char c))) s)"

record regexp =
  source :: jsstring
  ignoreCase :: bool
  body :: regex

definition toString :: "regexp \<Rightarrow> jsstring" where
  "toString p = asc ''/'' @ source p @ asc ''/'' @ (if ignoreCase p then asc ''i'' else [])"

record match_array =
  whole :: jsstring
  group1 :: "jsstring option"

fun exec_from :: "bool \<Rightarrow> regex \<Rightarrow> nat list \<Rightarrow> nat list \<Rightarrow> match_array option" where
  "exec_from ic r seen [] =
     (case matches ic r (MState seen [] None) of
        [] \<Rightarrow> None
      | y # _ \<Rightarrow> Some \<lparr>whole = [], group1 = cap y\<rparr>)"
| "exec_from ic r seen (c # cs) =
     (case matches ic r (MState seen (c # cs) None) of
        [] \<Rightarrow> exec_from ic r (c # seen) cs
      | y # _ \<Rightarrow> Some \<lparr>whole = take (length (c # cs) - length (rest y)) (c # cs), group1 = cap y\<rparr>)"

definition match :: "jsstring \<Rightarrow> regexp \<Rightarrow> match_array option" where
  \<comment> \<open>\<open>String.prototype.match\<close> with a regular expression without the \<open>g\<close> flag: the leftmost match\<close>
  "match text p = exec_from (ignoreCase p) (body p) [] text"

definition test :: "regexp \<Rightarrow> jsstring \<Rightarrow> bool" where
  "test p text = (match text p \<noteq> None)"

function replaceAll_from :: "bool \<Rightarrow> regex \<Rightarrow> jsstring \<Rightarrow> nat list \<Rightarrow> nat list \<Rightarrow> jsstring" where
  "replaceAll_from ic r new seen ahead =
     (case matches ic r (MState seen ahead None) of
        [] \<Rightarrow> (case ahead of [] \<Rightarrow> [] | c # cs \<Rightarrow> c # replaceAll_from ic r new (c # seen) cs)
      | y # _ \<Rightarrow>
          if length (rest y) < length ahead then new @ replaceAll_from ic r new (pre y) (rest y)
          else new @ (case ahead of [] \<Rightarrow> [] | c # cs \<Rightarrow> c # replaceAll_from ic r new (c # seen) cs))"
  by pat_completeness auto
termination
  by (relation "measure (\<lambda>(ic, r, new, seen, ahead). length ahead)") auto

definition replaceAll :: "regexp \<Rightarrow> jsstring \<Rightarrow> jsstring \<Rightarrow> jsstring" where
  \<comment> \<open>\<open>text.replace(p, new)\<close> for a pattern with the \<open>g\<close> flag and a replacement without \<open>$\<close>\<close>
  "replaceAll p new text = replaceAll_from (ignoreCase p) (body p) new [] text"

definition trim :: "jsstring \<Rightarrow> jsstring" where
  "trim s = rev (dropWhile is_space (rev (dropWhile is_space s)))"

definition toUpperCase :: "jsstring \<Rightarrow> jsstring" where
  "toUpperCase s = map upper_cu s"

definition startsWith :: "jsstring \<Rightarrow> jsstring \<Rightarrow> bool" where
  "startsWith s p = (take (length p) s = p)"

fun js_includes :: "jsstring \<Rightarrow> jsstring \<Rightarrow> bool" where
  "js_includes [] sub = (sub = [])"
| "js_includes (c # cs) sub = (startsWith (c # cs) sub \<or> js_includes cs sub)"


section \<open>The logger\<close>

text \<open>
  The source writes its diagnostics through a global \<open>Logger\<close>. A function that logs
  returns, beside its result, the entries it appended, in order. An entry is the level
  and the message handed to \<open>logger.info\<close> or \<open>logger.error\<close>; the time stamp that
  \<open>formatMessage\<close> puts in front is left out.
\<close>

datatype level = INFO | ERROR | SUCCESS

type_synonym log = "(level \<times> jsstring) list"

section \<open>The order number\<close>

definition esc :: "string \<Rightarrow> jsstring" where
  \<comment> \<open>a backslash followed by the given characters, for writing pattern sources\<close>
  "esc s = 92 # asc s"

abbreviation ch :: "char \<Rightarrow> regex" where
  "ch c \<equiv> Atom (Chr (of_char c))"

abbreviation d :: regex where
  "d \<equiv> Atom Digit"

abbreviation sp :: regex where
  "sp \<equiv> Atom Space"

fun alts :: "regex list \<Rightarrow> regex" where
  "alts [] = Eps"
| "alts [r] = r"
| "alts (r # rs) = Alt r (alts rs)"

fun join :: "string \<Rightarrow> string list \<Rightarrow> string" where
  "join sep [] = []"
| "join sep [x] = x"
| "join sep (x # xs) = x @ sep @ join sep xs"

definition longPrefixes :: "string list" where
  "longPrefixes = [''EJR'', ''EJC'', ''MH'']"

definition shortPrefixes :: "string list" where
  "shortPrefixes = [''R'', ''AL'']"

definition longPrefixPattern_src :: jsstring where
  "longPrefixPattern_src = asc (''(?:'' @ join ''|'' longPrefixes @ '')'')"

definition shortPrefixPattern_src :: jsstring where
  "shortPrefixPattern_src = asc (''(?:'' @ join ''|'' shortPrefixes @ '')'')"

definition longPrefixPattern :: regex where
  "longPrefixPattern = alts (map lit longPrefixes)"

definition shortPrefixPattern :: regex where
  "shortPrefixPattern = alts (map lit shortPrefixes)"

definition orderLabel_src :: jsstring where
  \<comment> \<open>the text \<open>(?:Order\s*#?\s*|Order\s*Number\s*[:"']?\s*)\<close>\<close>
  "orderLabel_src = asc ''(?:Order'' @ esc ''s*#?'' @ esc ''s*|Order'' @ esc ''s*Number'' @ esc ''s*[:''
                    @ [34, 39] @ asc '']?'' @ esc ''s*)''"

definition orderLabel :: regex where
  "orderLabel = Alt (seqs [lit ''Order'', Star sp, Opt (ch CHR ''#''), Star sp])
                    (seqs [lit ''Order'', Star sp, lit ''Number'', Star sp, Opt (Atom (Class [58, 34, 39])), Star sp])"

definition optDashDigit :: regex where
  \<comment> \<open>\<open>(?:-\d)?\<close>\<close>
  "optDashDigit = Opt (Seq (ch CHR ''-'') d)"

definition looseSuffix :: "regex list" where
  \<comment> \<open>\<open>\s*-?\s*\d?\<close>\<close>
  "looseSuffix = [Star sp, Opt (ch CHR ''-''), Star sp, Opt d]"

definition surround :: regex where
  \<comment> \<open>\<open>(?:^|\s|#)\<close>\<close>
  "surround = Alt Bol (Alt sp (ch CHR ''#''))"

definition multiSegment9 :: regexp where
  \<comment> \<open>\<^verbatim>\<open>/\b(\d{9}(?:\s*[U+2014 U+2013 -]\s*\d)+)\b/ (9-digit numbers with multiple segments)\<close>\<close>
  "multiSegment9 =
     \<lparr>source = esc ''b('' @ esc ''d{9}(?:'' @ esc ''s*['' @ [8212, 8211] @ asc ''-]'' @ esc ''s*'' @ esc ''d)+)'' @ esc ''b'',
      ignoreCase = False,
      body = seqs [WordB, Group (seqs [Times 9 d, Plus (seqs [Star sp, Atom (Class [8212, 8211, 45]), Star sp, d])]), WordB]\<rparr>"

definition twoPlus9 :: regexp where
  \<comment> \<open>\<^verbatim>\<open>/\b(2\d{9}(?:-\d)?)\b/ (2 + 9 digits)\<close>\<close>
  "twoPlus9 =
     \<lparr>source = esc ''b(2'' @ esc ''d{9}(?:-'' @ esc ''d)?)'' @ esc ''b'',
      ignoreCase = False,
      body = seqs [WordB, Group (seqs [ch CHR ''2'', Times 9 d, optDashDigit]), WordB]\<rparr>"

definition elFormat :: regexp where
  \<comment> \<open>\<^verbatim>\<open>/\b(EL\d{6}EL(?:-\d)?)\b/i (EL format with suffix)\<close>\<close>
  "elFormat =
     \<lparr>source = esc ''b(EL'' @ esc ''d{6}EL(?:-'' @ esc ''d)?)'' @ esc ''b'',
      ignoreCase = True,
      body = seqs [WordB, Group (seqs [lit ''EL'', Times 6 d, lit ''EL'', optDashDigit]), WordB]\<rparr>"

definition shortPrefixFormat :: regexp where
  \<comment> \<open>\<^verbatim>\<open>new RegExp(`\\b(${shortPrefixPattern}\\d{4}(?:-\\d)?)\\b`, i) (short prefix formats)\<close>\<close>
  "shortPrefixFormat =
     \<lparr>source = esc ''b('' @ shortPrefixPattern_src @ esc ''d{4}(?:-'' @ esc ''d)?)'' @ esc ''b'',
      ignoreCase = True,
      body = seqs [WordB, Group (seqs [shortPrefixPattern, Times 4 d, optDashDigit]), WordB]\<rparr>"

definition longPrefixFormat :: regexp where
  \<comment> \<open>\<^verbatim>\<open>new RegExp(`\\b(${longPrefixPattern}\\d{6}(?:-\\d)?)\\b`, i) (long prefix formats)\<close>\<close>
  "longPrefixFormat =
     \<lparr>source = esc ''b('' @ longPrefixPattern_src @ esc ''d{6}(?:-'' @ esc ''d)?)'' @ esc ''b'',
      ignoreCase = True,
      body = seqs [WordB, Group (seqs [longPrefixPattern, Times 6 d, optDashDigit]), WordB]\<rparr>"

definition nineDigitSpaced :: regexp where
  \<comment> \<open>\<^verbatim>\<open>/\b(\d{9}\s*-\s*\d)\b/ (9-digit numbers, with space before dash)\<close>\<close>
  "nineDigitSpaced =
     \<lparr>source = esc ''b('' @ esc ''d{9}'' @ esc ''s*-'' @ esc ''s*'' @ esc ''d)'' @ esc ''b'',
      ignoreCase = False,
      body = seqs [WordB, Group (seqs [Times 9 d, Star sp, ch CHR ''-'', Star sp, d]), WordB]\<rparr>"

definition nineDigit :: regexp where
  \<comment> \<open>\<^verbatim>\<open>/\b(\d{9}(?:-\d)?)\b/ (9-digit numbers with optional -digit)\<close>\<close>
  "nineDigit =
     \<lparr>source = esc ''b('' @ esc ''d{9}(?:-'' @ esc ''d)?)'' @ esc ''b'',
      ignoreCase = False,
      body = seqs [WordB, Group (seqs [Times 9 d, optDashDigit]), WordB]\<rparr>"

definition sixDigitSpaced :: regexp where
  \<comment> \<open>\<^verbatim>\<open>/\b(\d{6}\s*-\s*\d)\b/ (6-digit numbers, with space before dash)\<close>\<close>
  "sixDigitSpaced =
     \<lparr>source = esc ''b('' @ esc ''d{6}'' @ esc ''s*-'' @ esc ''s*'' @ esc ''d)'' @ esc ''b'',
      ignoreCase = False,
      body = seqs [WordB, Group (seqs [Times 6 d, Star sp, ch CHR ''-'', Star sp, d]), WordB]\<rparr>"

definition sixDigit :: regexp where
  \<comment> \<open>\<^verbatim>\<open>/\b(\d{6}-\d)\b/ (6-digit numbers with -digit)\<close>\<close>
  "sixDigit =
     \<lparr>source = esc ''b('' @ esc ''d{6}-'' @ esc ''d)'' @ esc ''b'',
      ignoreCase = False,
      body = seqs [WordB, Group (seqs [Times 6 d, ch CHR ''-'', d]), WordB]\<rparr>"

definition elStandalone :: regexp where
  \<comment> \<open>\<^verbatim>\<open>/(?:^|\s|#)(EL\d{6}EL(?:-\d)?)/i (standalone, with surrounding characters)\<close>\<close>
  "elStandalone =
     \<lparr>source = asc ''(?:^|'' @ esc ''s|#)(EL'' @ esc ''d{6}EL(?:-'' @ esc ''d)?)'',
      ignoreCase = True,
      body = seqs [surround, Group (seqs [lit ''EL'', Times 6 d, lit ''EL'', optDashDigit])]\<rparr>"

definition shortStandalone :: regexp where
  \<comment> \<open>\<^verbatim>\<open>new RegExp(`(?:^|\\s|#)(${shortPrefixPattern}\\d{4}(?:-\\d)?)`, i)\<close>\<close>
  "shortStandalone =
     \<lparr>source = asc ''(?:^|'' @ esc ''s|#)('' @ shortPrefixPattern_src @ esc ''d{4}(?:-'' @ esc ''d)?)'',
      ignoreCase = True,
      body = seqs [surround, Group (seqs [shortPrefixPattern, Times 4 d, optDashDigit])]\<rparr>"

definition longStandalone :: regexp where
  \<comment> \<open>\<^verbatim>\<open>new RegExp(`(?:^|\\s|#)(${longPrefixPattern}\\d{6}(?:-\\d)?)`, i)\<close>\<close>
  "longStandalone =
     \<lparr>source = asc ''(?:^|'' @ esc ''s|#)('' @ longPrefixPattern_src @ esc ''d{6}(?:-'' @ esc ''d)?)'',
      ignoreCase = True,
      body = seqs [surround, Group (seqs [longPrefixPattern, Times 6 d, optDashDigit])]\<rparr>"

definition labelledLong :: regexp where
  \<comment> \<open>\<^verbatim>\<open>the order label followed by ((?:${longPrefixPattern})?\\d{6,9}\\s*-?\\s*\\d?), flag i\<close>\<close>
  "labelledLong =
     \<lparr>source = orderLabel_src @ asc ''((?:'' @ longPrefixPattern_src @ asc '')?'' @ esc ''d{6,9}'' @ esc ''s*-?'' @ esc ''s*'' @ esc ''d?)'',
      ignoreCase = True,
      body = seqs [orderLabel, Group (seqs ([Opt longPrefixPattern, Range 6 9 d] @ looseSuffix))]\<rparr>"

definition labelledShort :: regexp where
  \<comment> \<open>\<^verbatim>\<open>the order label followed by ((?:${shortPrefixPattern})?\\d{4}\\s*-?\\s*\\d?), flag i\<close>\<close>
  "labelledShort =
     \<lparr>source = orderLabel_src @ asc ''((?:'' @ shortPrefixPattern_src @ asc '')?'' @ esc ''d{4}'' @ esc ''s*-?'' @ esc ''s*'' @ esc ''d?)'',
      ignoreCase = True,
      body = seqs [orderLabel, Group (seqs ([Opt shortPrefixPattern, Times 4 d] @ looseSuffix))]\<rparr>"

definition labelledEL :: regexp where
  \<comment> \<open>\<^verbatim>\<open>the order label followed by (EL\\d{6}EL\\s*-?\\s*\\d?), flag i\<close>\<close>
  "labelledEL =
     \<lparr>source = orderLabel_src @ asc ''(EL'' @ esc ''d{6}EL'' @ esc ''s*-?'' @ esc ''s*'' @ esc ''d?)'',
      ignoreCase = True,
      body = seqs [orderLabel, Group (seqs ([lit ''EL'', Times 6 d, lit ''EL''] @ looseSuffix))]\<rparr>"

definition hashNumber :: regexp where
  \<comment> \<open>\<^verbatim>\<open>new RegExp(`#\\s*((?:${longPrefixPattern}|${shortPrefixPattern})?\\d{4,9}\\s*-?\\s*\\d?)`, i)\<close>\<close>
  "hashNumber =
     \<lparr>source = asc ''#'' @ esc ''s*((?:'' @ longPrefixPattern_src @ asc ''|'' @ shortPrefixPattern_src @ asc '')?''
               @ esc ''d{4,9}'' @ esc ''s*-?'' @ esc ''s*'' @ esc ''d?)'',
      ignoreCase = True,
      body = seqs [ch CHR ''#'', Star sp,
                   Group (seqs ([Opt (Alt longPrefixPattern shortPrefixPattern), Range 4 9 d] @ looseSuffix))]\<rparr>"

definition hashEL :: regexp where
  \<comment> \<open>\<^verbatim>\<open>/#\s*(EL\d{6}EL\s*-?\s*\d?)/i\<close>\<close>
  "hashEL =
     \<lparr>source = asc ''#'' @ esc ''s*(EL'' @ esc ''d{6}EL'' @ esc ''s*-?'' @ esc ''s*'' @ esc ''d?)'',
      ignoreCase = True,
      body = seqs [ch CHR ''#'', Star sp, Group (seqs ([lit ''EL'', Times 6 d, lit ''EL''] @ looseSuffix))]\<rparr>"

definition patterns :: "regexp list" where
  "patterns = [multiSegment9, twoPlus9, elFormat,
               shortPrefixFormat, longPrefixFormat, nineDigitSpaced,
               nineDigit, sixDigitSpaced, sixDigit,
               elStandalone, shortStandalone, longStandalone,
               labelledLong, labelledShort, labelledEL,
               hashNumber, hashEL]"

definition dashes_g :: regexp where
  \<comment> \<open>\<open>/[U+2014 U+2013 ]/g\<close>\<close>
  "dashes_g = \<lparr>source = asc ''['' @ [8212, 8211] @ asc '']'', ignoreCase = False, body = Atom (Class [8212, 8211])\<rparr>"

definition spaces_g :: regexp where
  \<comment> \<open>\<open>/\s+/g\<close>\<close>
  "spaces_g = \<lparr>source = esc ''s+'', ignoreCase = False, body = Plus sp\<rparr>"

definition el_gi :: regexp where
  \<comment> \<open>\<open>/el/gi\<close>\<close>
  "el_gi = \<lparr>source = asc ''el'', ignoreCase = True, body = lit ''el''\<rparr>"

definition normalize :: "jsstring \<Rightarrow> jsstring" where
  \<comment> \<open>\<open>text.replace(/[U+2014 U+2013 ]/g, '-')\<close>\<close>
  "normalize text = replaceAll dashes_g (asc ''-'') text"

definition cleanUp :: "jsstring \<Rightarrow> jsstring" where
  "cleanUp f = replaceAll dashes_g (asc ''-'') (replaceAll spaces_g [] (trim f))"

fun normalizePrefix :: "string list \<Rightarrow> jsstring \<Rightarrow> jsstring" where
  "normalizePrefix [] f = f"
| "normalizePrefix (prefix # ps) f =
     (if startsWith (toUpperCase f) (toUpperCase (asc prefix))
      then asc prefix @ drop (length prefix) f
      else normalizePrefix ps f)"

definition fixCase :: "jsstring \<Rightarrow> jsstring" where
  "fixCase f =
     (if startsWith (toUpperCase f) (asc ''EL'') \<and> js_includes (toUpperCase f) (asc ''EL-'')
      then replaceAll el_gi (asc ''EL'') f
      else normalizePrefix (longPrefixes @ shortPrefixes) f)"

definition dashDigits :: regex where
  \<comment> \<open>\<open>(?:-\d)+\<close>\<close>
  "dashDigits = Plus (Seq (ch CHR ''-'') d)"

definition prefixFormat :: "nat \<Rightarrow> string \<Rightarrow> regexp" where
  \<comment> \<open>\<open>new RegExp(`^${prefix}\\d{n}(?:-\\d)+$`, 'i')\<close>\<close>
  "prefixFormat n prefix =
     \<lparr>source = asc ''^'' @ asc prefix @ esc ''d{'' @ asc (if n = 4 then ''4'' else ''6'') @ asc ''}(?:-'' @ esc ''d)+$'',
      ignoreCase = True,
      body = seqs [Bol, lit prefix, Times n d, dashDigits, Eol]\<rparr>"

definition isValidFormat :: "jsstring \<Rightarrow> bool" where
  "isValidFormat f =
     (test \<lparr>source = asc ''^2'' @ esc ''d{9}(?:-'' @ esc ''d)+$'', ignoreCase = False,
            body = seqs [Bol, ch CHR ''2'', Times 9 d, dashDigits, Eol]\<rparr> f
      \<or> test \<lparr>source = asc ''^EL'' @ esc ''d{6}EL(?:-'' @ esc ''d)+$'', ignoreCase = True,
              body = seqs [Bol, lit ''EL'', Times 6 d, lit ''EL'', dashDigits, Eol]\<rparr> f
      \<or> list_ex (\<lambda>prefix. test (prefixFormat 4 prefix) f) shortPrefixes
      \<or> list_ex (\<lambda>prefix. test (prefixFormat 6 prefix) f) longPrefixes
      \<or> test \<lparr>source = asc ''^'' @ esc ''d{9}(?:-'' @ esc ''d)+$'', ignoreCase = False,
              body = seqs [Bol, Times 9 d, dashDigits, Eol]\<rparr> f
      \<or> test \<lparr>source = asc ''^'' @ esc ''d{6}(?:-'' @ esc ''d)+$'', ignoreCase = False,
              body = seqs [Bol, Times 6 d, dashDigits, Eol]\<rparr> f)"

definition candidate :: "match_array \<Rightarrow> jsstring" where
  \<comment> \<open>\<open>match[1] || match[0]\<close>, cleaned up and with its prefix in canonical case\<close>
  "candidate m = fixCase (cleanUp (case group1 m of None \<Rightarrow> whole m | Some g \<Rightarrow> if g = [] then whole m else g))"

fun cascade :: "jsstring \<Rightarrow> regexp list \<Rightarrow> log \<times> jsstring option" where
  "cascade normalizedText [] = ([], None)"
| "cascade normalizedText (pattern # ps) =
     (case match normalizedText pattern of
        None \<Rightarrow> cascade normalizedText ps
      | Some m \<Rightarrow>
          let foundOrderNumber = candidate m in
          if isValidFormat foundOrderNumber
          then ([(INFO, asc ''Found order number: '' @ foundOrderNumber @ asc '' (matched pattern: ''
                        @ toString pattern @ asc '')'')],
                Some foundOrderNumber)
          else
            let (l, r) = cascade normalizedText ps
            in ((INFO, asc ''Found potential order number but invalid format: '' @ foundOrderNumber) # l, r))"

definition extractOrderNumber :: "jsstring \<Rightarrow> log \<times> jsstring option" where
  "extractOrderNumber text =
     (let normalizedText = normalize text;
          (l, r) = cascade normalizedText patterns;
          l = (INFO, asc ''Attempting to extract order number from text'') # l
      in case r of
           Some foundOrderNumber \<Rightarrow> (l, Some foundOrderNumber)
         | None \<Rightarrow>
             (l @ [(ERROR, asc ''No order number found. Text content:''),
                   (ERROR, asc ''---Begin Text Content---''),
                   (ERROR, normalizedText),
                   (ERROR, asc ''---End Text Content---''),
                   (ERROR, asc ''Attempted patterns:'')]
                @ map (\<lambda>pattern. (ERROR, asc ''- '' @ toString pattern)) patterns,
              None))"


section \<open>The tracking number\<close>

text \<open>
  \<open>path.basename(path, suffix)\<close> belongs to the Node library. The model transcribes its
  POSIX implementation: one scan of the path from its last character to its first, which
  stops at the first separator that follows a character other than a separator, and
  which compares the characters it passes with the suffix, from the suffix's last
  character. The record holds the variables of the scan; \<open>extIdx\<close>, \<open>stop\<close> (the
  library's \<open>end\<close>) and \<open>firstNonSlashEnd\<close> take the value -1 there, so they are integers.
\<close>

record scan =
  start :: nat
  stop :: int
  matchedSlash :: bool
  extIdx :: int
  firstNonSlashEnd :: int

definition slice :: "jsstring \<Rightarrow> nat \<Rightarrow> nat \<Rightarrow> jsstring" where
  "slice s a b = take (b - a) (drop a s)"

definition noteNonSlash :: "nat \<Rightarrow> scan \<Rightarrow> scan" where
  \<comment> \<open>the first character met that is no separator marks the end of the last portion\<close>
  "noteNonSlash i st =
     (if firstNonSlashEnd st = -1 then st\<lparr>matchedSlash := False, firstNonSlashEnd := int i + 1\<rparr> else st)"

definition matchExt :: "jsstring \<Rightarrow> jsstring \<Rightarrow> nat \<Rightarrow> scan \<Rightarrow> scan" where
  \<comment> \<open>one more character of the suffix, or the end of the comparison\<close>
  "matchExt path suffix i st =
     (if 0 \<le> extIdx st
      then (if path ! i = suffix ! nat (extIdx st)
            then (if extIdx st - 1 = -1
                  then st\<lparr>extIdx := extIdx st - 1, stop := int i\<rparr>
                  else st\<lparr>extIdx := extIdx st - 1\<rparr>)
            else st\<lparr>extIdx := -1, stop := firstNonSlashEnd st\<rparr>)
      else st)"

fun scanSuffix :: "jsstring \<Rightarrow> jsstring \<Rightarrow> nat \<Rightarrow> scan \<Rightarrow> scan" where
  \<comment> \<open>the loop \<open>for (i = path.length - 1; i >= 0; --i)\<close> when a suffix is given; the third
      argument is \<open>i + 1\<close>, and \<open>break\<close> is the branch that does not recur\<close>
  "scanSuffix path suffix 0 st = st"
| "scanSuffix path suffix (Suc i) st =
     (if path ! i = 47
      then (if \<not> matchedSlash st then st\<lparr>start := i + 1\<rparr> else scanSuffix path suffix i st)
      else scanSuffix path suffix i (matchExt path suffix i (noteNonSlash i st)))"

fun scanPlain :: "jsstring \<Rightarrow> nat \<Rightarrow> scan \<Rightarrow> scan" where
  \<comment> \<open>the same loop when no suffix applies\<close>
  "scanPlain path 0 st = st"
| "scanPlain path (Suc i) st =
     (if path ! i = 47
      then (if \<not> matchedSlash st then st\<lparr>start := i + 1\<rparr> else scanPlain path i st)
      else if stop st = -1 then scanPlain path i (st\<lparr>matchedSlash := False, stop := int i + 1\<rparr>)
      else scanPlain path i st)"

definition basename :: "jsstring \<Rightarrow> jsstring \<Rightarrow> jsstring" where
  "basename path suffix =
     (if suffix \<noteq> [] \<and> length suffix \<le> length path
      then
        if suffix = path then []
        else
          let st = scanSuffix path suffix (length path)
                     \<lparr>start = 0, stop = -1, matchedSlash = True,
                      extIdx = int (length suffix) - 1, firstNonSlashEnd = -1\<rparr>;
              e = (if int (start st) = stop st then firstNonSlashEnd st
                   else if stop st = -1 then int (length path) else stop st)
          in slice path (start st) (nat e)
      else
        let st = scanPlain path (length path)
                   \<lparr>start = 0, stop = -1, matchedSlash = True, extIdx = -1, firstNonSlashEnd = -1\<rparr>
        in if stop st = -1 then [] else slice path (start st) (nat (stop st)))"

definition uspsGroup :: regex where
  \<comment> \<open>the capture group of the pattern below\<close>
  "uspsGroup = seqs [lit ''9205'', Star sp, Times 4 d, Star sp, Times 4 d, Star sp, Times 4 d,
                     Star sp, Times 4 d, Star sp, Times 2 d]"

definition uspsFormat :: regexp where
  \<comment> \<open>\<^verbatim>\<open>/\b(9205\s*\d{4}\s*\d{4}\s*\d{4}\s*\d{4}\s*\d{2})\b/\<close>\<close>
  "uspsFormat =
     \<lparr>source = esc ''b(9205'' @ esc ''s*'' @ esc ''d{4}'' @ esc ''s*'' @ esc ''d{4}'' @ esc ''s*'' @ esc ''d{4}''
               @ esc ''s*'' @ esc ''d{4}'' @ esc ''s*'' @ esc ''d{2})'' @ esc ''b'',
      ignoreCase = False,
      body = seqs [WordB, Group uspsGroup, WordB]\<rparr>"

definition trackingPatterns :: "regexp list" where
  "trackingPatterns = [uspsFormat]"

definition fileNameFormat :: regexp where
  \<comment> \<open>\<^verbatim>\<open>/^\d{20,22}$/\<close>\<close>
  "fileNameFormat =
     \<lparr>source = asc ''^'' @ esc ''d{20,22}$'', ignoreCase = False, body = seqs [Bol, Range 20 22 d, Eol]\<rparr>"

fun findInText :: "jsstring \<Rightarrow> regexp list \<Rightarrow> jsstring option" where
  \<comment> \<open>the loop over the patterns: the first one that matches the text gives the number\<close>
  "findInText pdfText [] = None"
| "findInText pdfText (pattern # ps) =
     (case match pdfText pattern of
        None \<Rightarrow> findInText pdfText ps
      | Some m \<Rightarrow>
          Some (replaceAll spaces_g [] (case group1 m of None \<Rightarrow> whole m | Some g \<Rightarrow> if g = [] then whole m else g)))"

definition extractTrackingNumber :: "jsstring \<Rightarrow> jsstring \<Rightarrow> log \<times> jsstring option" where
  "extractTrackingNumber fileName pdfText =
     (let l = [(INFO, asc ''Attempting to extract tracking number'')] in
      case findInText pdfText trackingPatterns of
        Some trackingNumber \<Rightarrow>
          (l @ [(INFO, asc ''Found tracking number in PDF: '' @ trackingNumber)], Some trackingNumber)
      | None \<Rightarrow>
          let trackingNumber = basename fileName (asc ''.pdf'') in
          if match trackingNumber fileNameFormat \<noteq> None
          then (l @ [(INFO, asc ''Found tracking number in filename: '' @ trackingNumber)], Some trackingNumber)
          else (l @ [(ERROR, asc ''No valid tracking number found in PDF or filename'')], None))"

section \<open>Notions of the specification\<close>

text \<open>
  The definitions of this section follow the words of the specification; the theorems
  compare them with the code above.
\<close>

abbreviation (input) unspaced :: "jsstring \<Rightarrow> jsstring" where
  "unspaced w \<equiv> filter (\<lambda>c. \<not> is_space c) w"

definition dashToHyphen :: "nat \<Rightarrow> nat" where
  \<comment> \<open>every em dash and en dash becomes an ASCII hyphen, every other character passes through\<close>
  "dashToHyphen c = (if c = 8212 \<or> c = 8211 then 45 else c)"

fun upperEveryEL :: "jsstring \<Rightarrow> jsstring" where
  \<comment> \<open>every occurrence of \<open>el\<close>, in either case, becomes \<open>EL\<close>\<close>
  "upperEveryEL (a # b # cs) =
     (if upper_cu a = 69 \<and> upper_cu b = 76 then 69 # 76 # upperEveryEL cs else a # upperEveryEL (b # cs))"
| "upperEveryEL cs = cs"

text \<open>
  The six format families of the specification, in canonical form: the root of the
  family followed by one suffix segment, a hyphen and a digit. Prefix letters may come
  in either case.
\<close>

datatype family = LongPrefix | ShortPrefix | ELWrapped | LeadingTwo | Bare9 | Bare6

definition digitRun :: "nat \<Rightarrow> jsstring \<Rightarrow> bool" where
  \<comment> \<open>exactly \<open>n\<close> digits\<close>
  "digitRun n s = (length s = n \<and> list_all is_digit s)"

definition dashDigit :: "jsstring \<Rightarrow> bool" where
  \<comment> \<open>one suffix segment: a hyphen and a digit\<close>
  "dashDigit s = (case s of [h, x] \<Rightarrow> h = 45 \<and> is_digit x | _ \<Rightarrow> False)"

fun familyRoot :: "family \<Rightarrow> jsstring \<Rightarrow> bool" where
  "familyRoot LongPrefix r =
     list_ex (\<lambda>p. toUpperCase (take (length p) r) = asc p \<and> digitRun 6 (drop (length p) r)) longPrefixes"
| "familyRoot ShortPrefix r =
     list_ex (\<lambda>p. toUpperCase (take (length p) r) = asc p \<and> digitRun 4 (drop (length p) r)) shortPrefixes"
| "familyRoot ELWrapped r =
     (toUpperCase (take 2 r) = asc ''EL'' \<and> digitRun 6 (take 6 (drop 2 r)) \<and> toUpperCase (drop 8 r) = asc ''EL'')"
| "familyRoot LeadingTwo r = (take 1 r = asc ''2'' \<and> digitRun 9 (drop 1 r))"
| "familyRoot Bare9 r = digitRun 9 r"
| "familyRoot Bare6 r = digitRun 6 r"

definition canonicalFormat :: "family \<Rightarrow> jsstring \<Rightarrow> bool" where
  "canonicalFormat fam s =
     (familyRoot fam (take (length s - 2) s) \<and> dashDigit (drop (length s - 2) s))"

text \<open>
  The bare 9-digit family also comes with several suffix segments chained: 9 digits
  followed by one or more segments of a hyphen and a digit. \<open>segments xs\<close> is the chain
  whose digits are \<open>xs\<close>.
\<close>

fun dashDigitChain :: "jsstring \<Rightarrow> bool" where
  "dashDigitChain (h # x # others) = (h = 45 \<and> is_digit x \<and> (others = [] \<or> dashDigitChain others))"
| "dashDigitChain _ = False"

definition chainedNineDigit :: "jsstring \<Rightarrow> bool" where
  "chainedNineDigit s = (digitRun 9 (take 9 s) \<and> dashDigitChain (drop 9 s))"

definition segments :: "nat list \<Rightarrow> jsstring" where
  "segments xs = concat (map (\<lambda>x. [45, x]) xs)"


abbreviation (input) seg :: regex where
  \<comment> \<open>one segment of the multi-segment pattern: \<^verbatim>\<open>\s*[U+2014 U+2013 -]\s*\d\<close>\<close>
  "seg \<equiv> seqs [Star sp, Atom (Class [8212, 8211, 45]), Star sp, d]"


text \<open>
  A pattern produces a validated match on a text when its leftmost match gives a
  candidate that is valid; the first pattern of a sequence that does so wins.
\<close>

definition validated :: "regexp \<Rightarrow> jsstring \<Rightarrow> jsstring option" where
  "validated p nt =
     (case match nt p of
        None \<Rightarrow> None
      | Some m \<Rightarrow> if isValidFormat (candidate m) then Some (candidate m) else None)"

fun firstValidated :: "jsstring \<Rightarrow> regexp list \<Rightarrow> jsstring option" where
  "firstValidated nt [] = None"
| "firstValidated nt (p # ps) = (case validated p nt of Some f \<Rightarrow> Some f | None \<Rightarrow> firstValidated nt ps)"

text \<open>
  \<open>eats ic r s w y\<close>: the matcher can go from state \<open>s\<close> to state \<open>y\<close> through \<open>r\<close>,
  consuming the characters \<open>w\<close>.
\<close>

definition eats :: "bool \<Rightarrow> regex \<Rightarrow> mstate \<Rightarrow> jsstring \<Rightarrow> mstate \<Rightarrow> bool" where
  "eats ic r s w y = (y \<in> set (matches ic r s) \<and> rest s = w @ rest y \<and> pre y = rev w @ pre s)"

text \<open>
  The carrier-specific format in the specification's words, as a scanner that uses no
  regular expression. \<open>digitGroup n s\<close> skips white space and then takes exactly \<open>n\<close>
  digits; \<open>uspsAt s\<close> asks for \<open>9205\<close> at the start of \<open>s\<close> and then for four groups of four
  digits and one of two; both return what they have read and what is left.
  \<open>wordEdge s\<close>: \<open>s\<close> is empty or starts with a character that is no word character, so a
  word boundary stands between a word character and \<open>s\<close>. \<open>uspsHere seen ahead\<close> is the
  format between word boundaries at one position of the text, \<open>seen\<close> being the text
  before the position, reversed; \<open>searchUsps\<close> tries the positions from left to right.
\<close>

definition wordEdge :: "jsstring \<Rightarrow> bool" where
  "wordEdge s = (case s of [] \<Rightarrow> True | c # _ \<Rightarrow> \<not> is_word c)"

definition digitGroup :: "nat \<Rightarrow> jsstring \<Rightarrow> (jsstring \<times> jsstring) option" where
  "digitGroup n s =
     (let t = dropWhile is_space s in
      if n \<le> length t \<and> list_all is_digit (take n t)
      then Some (takeWhile is_space s @ take n t, drop n t)
      else None)"

fun digitGroups :: "nat list \<Rightarrow> jsstring \<Rightarrow> (jsstring \<times> jsstring) option" where
  "digitGroups [] s = Some ([], s)"
| "digitGroups (n # ns) s =
     (case digitGroup n s of
        None \<Rightarrow> None
      | Some (g, r) \<Rightarrow> (case digitGroups ns r of None \<Rightarrow> None | Some (gs, r') \<Rightarrow> Some (g @ gs, r')))"

definition uspsAt :: "jsstring \<Rightarrow> (jsstring \<times> jsstring) option" where
  "uspsAt s =
     (if take 4 s = asc ''9205''
      then (case digitGroups [4, 4, 4, 4, 2] (drop 4 s) of
              None \<Rightarrow> None
            | Some (gs, r) \<Rightarrow> Some (asc ''9205'' @ gs, r))
      else None)"

definition uspsHere :: "jsstring \<Rightarrow> jsstring \<Rightarrow> jsstring option" where
  "uspsHere seen ahead =
     (case uspsAt ahead of
        None \<Rightarrow> None
      | Some (g, r) \<Rightarrow> if wordEdge seen \<and> wordEdge r then Some g else None)"

fun searchUsps :: "jsstring \<Rightarrow> jsstring \<Rightarrow> jsstring option" where
  "searchUsps seen [] = None"
| "searchUsps seen (c # cs) =
     (case uspsHere seen (c # cs) of
        Some g \<Rightarrow> Some g
      | None \<Rightarrow> searchUsps (c # seen) cs)"

text \<open>
  \<open>hasDigitRun k t\<close>: \<open>k\<close> digits stand side by side somewhere in \<open>t\<close>. \<open>mustRun k r\<close>: by its
  syntax, \<open>r\<close> cannot match without consuming \<open>k\<close> digits in a row.
\<close>

fun hasDigitRun :: "nat \<Rightarrow> jsstring \<Rightarrow> bool" where
  "hasDigitRun k [] = (k = 0)"
| "hasDigitRun k (c # cs) = ((k \<le> length (c # cs) \<and> list_all is_digit (take k (c # cs))) \<or> hasDigitRun k cs)"

fun mustRun :: "nat \<Rightarrow> regex \<Rightarrow> bool" where
  "mustRun k (Seq a b) = (mustRun k a \<or> mustRun k b)"
| "mustRun k (Alt a b) = (mustRun k a \<and> mustRun k b)"
| "mustRun k (Rep r n m) =
     (0 < n \<and> m \<noteq> Some 0
      \<and> (mustRun k r \<or> (r = Atom Digit \<and> k \<le> n \<and> (case m of None \<Rightarrow> False | Some j \<Rightarrow> n \<le> j))))"
| "mustRun k (Group r) = mustRun k r"
| "mustRun k _ = False"

text \<open>
  The diagnostics of the specification: the normalized text between its two markers, and
  the patterns attempted, each as JavaScript prints it, in the order of the cascade. The
  seventeen printed patterns are written out here, character by character, from the
  regular expression literals and the template strings of the source.
\<close>

definition attemptedPatterns :: "jsstring list" where
  "attemptedPatterns =
    [asc ''/'' @ esc ''b('' @ esc ''d{9}(?:'' @ esc ''s*['' @ [8212, 8211] @ asc ''-]'' @ esc ''s*'' @ esc ''d)+)'' @ esc ''b/'',
     asc ''/'' @ esc ''b(2'' @ esc ''d{9}(?:-'' @ esc ''d)?)'' @ esc ''b/'',
     asc ''/'' @ esc ''b(EL'' @ esc ''d{6}EL(?:-'' @ esc ''d)?)'' @ esc ''b/i'',
     asc ''/'' @ esc ''b((?:R|AL)'' @ esc ''d{4}(?:-'' @ esc ''d)?)'' @ esc ''b/i'',
     asc ''/'' @ esc ''b((?:EJR|EJC|MH)'' @ esc ''d{6}(?:-'' @ esc ''d)?)'' @ esc ''b/i'',
     asc ''/'' @ esc ''b('' @ esc ''d{9}'' @ esc ''s*-'' @ esc ''s*'' @ esc ''d)'' @ esc ''b/'',
     asc ''/'' @ esc ''b('' @ esc ''d{9}(?:-'' @ esc ''d)?)'' @ esc ''b/'',
     asc ''/'' @ esc ''b('' @ esc ''d{6}'' @ esc ''s*-'' @ esc ''s*'' @ esc ''d)'' @ esc ''b/'',
     asc ''/'' @ esc ''b('' @ esc ''d{6}-'' @ esc ''d)'' @ esc ''b/'',
     asc ''/(?:^|'' @ esc ''s|#)(EL'' @ esc ''d{6}EL(?:-'' @ esc ''d)?)/i'',
     asc ''/(?:^|'' @ esc ''s|#)((?:R|AL)'' @ esc ''d{4}(?:-'' @ esc ''d)?)/i'',
     asc ''/(?:^|'' @ esc ''s|#)((?:EJR|EJC|MH)'' @ esc ''d{6}(?:-'' @ esc ''d)?)/i'',
     asc ''/(?:Order'' @ esc ''s*#?'' @ esc ''s*|Order'' @ esc ''s*Number'' @ esc ''s*[:'' @ [34, 39] @ asc '']?'' @ esc ''s*)((?:(?:EJR|EJC|MH))?''
       @ esc ''d{6,9}'' @ esc ''s*-?'' @ esc ''s*'' @ esc ''d?)/i'',
     asc ''/(?:Order'' @ esc ''s*#?'' @ esc ''s*|Order'' @ esc ''s*Number'' @ esc ''s*[:'' @ [34, 39] @ asc '']?'' @ esc ''s*)((?:(?:R|AL))?''
       @ esc ''d{4}'' @ esc ''s*-?'' @ esc ''s*'' @ esc ''d?)/i'',
     asc ''/(?:Order'' @ esc ''s*#?'' @ esc ''s*|Order'' @ esc ''s*Number'' @ esc ''s*[:'' @ [34, 39] @ asc '']?'' @ esc ''s*)(EL''
       @ esc ''d{6}EL'' @ esc ''s*-?'' @ esc ''s*'' @ esc ''d?)/i'',
     asc ''/#'' @ esc ''s*((?:(?:EJR|EJC|MH)|(?:R|AL))?'' @ esc ''d{4,9}'' @ esc ''s*-?'' @ esc ''s*'' @ esc ''d?)/i'',
     asc ''/#'' @ esc ''s*(EL'' @ esc ''d{6}EL'' @ esc ''s*-?'' @ esc ''s*'' @ esc ''d?)/i'']"

definition diagnostics :: "jsstring \<Rightarrow> log" where
  "diagnostics normalizedText =
     [(ERROR, asc ''No order number found. Text content:''),
      (ERROR, asc ''---Begin Text Content---''),
      (ERROR, normalizedText),
      (ERROR, asc ''---End Text Content---''),
      (ERROR, asc ''Attempted patterns:'')]
     @ map (\<lambda>printed. (ERROR, asc ''- '' @ printed)) attemptedPatterns"


section \<open>Properties of the matcher\<close>

text \<open>
  The equation for \<open>Rep\<close> calls itself under a binder; it is unfolded by hand.
\<close>

declare matches.simps(5) [simp del]

lemma in_matches_Rep:
  "y \<in> set (matches ic (Rep r n m) s) \<longleftrightarrow>
     (if m = Some 0 then y = s
      else (\<exists>z \<in> set (matches ic r s). \<not> (n = 0 \<and> length (rest s) \<le> length (rest z))
               \<and> y \<in> set (matches ic (Rep r (n - 1) (dec m)) z))
           \<or> (n = 0 \<and> y = s))"
  by (subst matches.simps) (auto simp: Let_def)

lemma matches_consumes:
  "y \<in> set (matches ic r s) \<Longrightarrow> \<exists>w. rest s = w @ rest y \<and> pre y = rev w @ pre s"
proof (induction ic r s arbitrary: y rule: matches.induct)
  case (1 ic s)
  then show ?case by simp
next
  case (2 ic a s)
  then show ?case by (cases s) (auto split: list.splits if_splits)
next
  case (3 ic a b s)
  from "3.prems" obtain m where m: "m \<in> set (matches ic a s)" and y: "y \<in> set (matches ic b m)"
    by auto
  from "3.IH"(1)[OF m] obtain w1 where w1: "rest s = w1 @ rest m" "pre m = rev w1 @ pre s" by blast
  from "3.IH"(2)[OF m y] obtain w2 where w2: "rest m = w2 @ rest y" "pre y = rev w2 @ pre m" by blast
  show ?case
    by (rule exI[of _ "w1 @ w2"]) (simp add: w1 w2)
next
  case (4 ic a b s)
  then show ?case by auto
next
  case (5 ic r n m s)
  show ?case
  proof (cases "m = Some 0")
    case True
    with "5.prems" show ?thesis by (simp add: in_matches_Rep)
  next
    case False
    from "5.prems" False consider (stop) "y = s" |
      (again) z where "z \<in> set (matches ic r s)" "\<not> (n = 0 \<and> length (rest s) \<le> length (rest z))"
        "y \<in> set (matches ic (Rep r (n - 1) (dec m)) z)"
      by (subst (asm) in_matches_Rep) auto
    then show ?thesis
    proof cases
      case stop
      then show ?thesis by simp
    next
      case again
      from "5.IH"(1)[OF False again(1)] obtain w1 where w1: "rest s = w1 @ rest z" "pre z = rev w1 @ pre s" by blast
      from "5.IH"(2)[OF False again(1) again(2) again(3)]
      obtain w2 where w2: "rest z = w2 @ rest y" "pre y = rev w2 @ pre z" by blast
      show ?thesis
        by (rule exI[of _ "w1 @ w2"]) (simp add: w1 w2)
    qed
  qed
next
  case (6 ic r s)
  then show ?case by auto
next
  case (7 ic s)
  then show ?case by (auto split: if_splits)
next
  case (8 ic s)
  then show ?case by (auto split: if_splits)
next
  case (9 ic s)
  then show ?case by (auto split: if_splits)
qed


lemma rep_invariant:
  assumes "y \<in> set (matches ic (Rep r n m) s)"
    and "P s"
    and step: "\<And>a b. P a \<Longrightarrow> b \<in> set (matches ic r a) \<Longrightarrow> P b"
  shows "P y"
  using assms
proof (induction ic R\<equiv>"Rep r n m" s arbitrary: n m rule: matches.induct)
  case (5 ic n m s)
  show ?case
  proof (cases "m = Some 0")
    case True
    with "5.prems" show ?thesis by (simp add: in_matches_Rep)
  next
    case False
    from "5.prems"(1) False consider (stop) "y = s" |
      (again) z where "z \<in> set (matches ic r s)" "\<not> (n = 0 \<and> length (rest s) \<le> length (rest z))"
        "y \<in> set (matches ic (Rep r (n - 1) (dec m)) z)"
      by (subst (asm) in_matches_Rep) auto
    then show ?thesis
    proof cases
      case stop
      with "5.prems" show ?thesis by simp
    next
      case again
      have "P z" using "5.prems"(3)[OF "5.prems"(2) again(1)] .
      from "5.hyps"(2)[OF False again(1) again(2) again(3) this "5.prems"(3)] show ?thesis .
    qed
  qed
qed

lemma exec_from_Some:
  "exec_from ic r seen ahead = Some m \<Longrightarrow>
     \<exists>u v y ys. ahead = u @ v \<and> matches ic r (MState (rev u @ seen) v None) = y # ys
        \<and> whole m = take (length v - length (rest y)) v \<and> group1 m = cap y"
proof (induction ahead arbitrary: seen)
  case Nil
  then show ?case by (auto split: list.splits)
next
  case (Cons c cs)
  show ?case
  proof (cases "matches ic r (MState seen (c # cs) None)")
    case Nil
    with Cons.prems have "exec_from ic r (c # seen) cs = Some m" by simp
    from Cons.IH[OF this] obtain u v y ys where
      h: "cs = u @ v" "matches ic r (MState (rev u @ c # seen) v None) = y # ys"
         "whole m = take (length v - length (rest y)) v" "group1 m = cap y" by blast
    show ?thesis
      apply (rule exI[of _ "c # u"])
      apply (rule exI[of _ v])
      using h by auto
  next
    case (Cons y ys)
    with Cons.prems show ?thesis
      apply -
      apply (rule exI[of _ "[]"])
      apply (rule exI[of _ "c # cs"])
      by auto
  qed
qed

lemma exec_from_None:
  "exec_from ic r seen ahead = None \<longleftrightarrow>
     (\<forall>u v. ahead = u @ v \<longrightarrow> matches ic r (MState (rev u @ seen) v None) = [])"
proof (induction ahead arbitrary: seen)
  case Nil
  then show ?case by (auto split: list.splits)
next
  case (Cons c cs)
  show ?case
  proof (cases "matches ic r (MState seen (c # cs) None)")
    case Nil
    have "(\<forall>u v. c # cs = u @ v \<longrightarrow> matches ic r (MState (rev u @ seen) v None) = [])
          \<longleftrightarrow> (\<forall>u v. cs = u @ v \<longrightarrow> matches ic r (MState (rev u @ c # seen) v None) = [])"
      (is "?L \<longleftrightarrow> ?R")
    proof
      assume l: ?L
      show ?R
      proof (intro allI impI)
        fix u v assume "cs = u @ v"
        then have "c # cs = (c # u) @ v" by simp
        from l[rule_format, OF this] show "matches ic r (MState (rev u @ c # seen) v None) = []" by simp
      qed
    next
      assume r: ?R
      show ?L
      proof (intro allI impI)
        fix u v assume uv: "c # cs = u @ v"
        show "matches ic r (MState (rev u @ seen) v None) = []"
        proof (cases u)
          case Nil
          with uv \<open>matches ic r (MState seen (c # cs) None) = []\<close> show ?thesis by simp
        next
          case (Cons a u')
          with uv have "cs = u' @ v" "a = c" by auto
          with r Cons show ?thesis by simp
        qed
      qed
    qed
    with Nil Cons.IH[of "c # seen"] show ?thesis by simp
  next
    case (Cons y ys)
    then show ?thesis by (auto intro: exI[of _ "[]"])
  qed
qed

subsection \<open>Replacing every match\<close>

declare replaceAll_from.simps [simp del]

lemma replaceAll_from_Nil:
  "replaceAll_from ic r new seen [] = (if matches ic r (MState seen [] None) = [] then [] else new)"
  by (subst replaceAll_from.simps) (auto split: list.splits)

lemma replaceAll_from_Cons:
  "replaceAll_from ic r new seen (c # cs) =
     (case matches ic r (MState seen (c # cs) None) of
        [] \<Rightarrow> c # replaceAll_from ic r new (c # seen) cs
      | y # _ \<Rightarrow>
          if length (rest y) < length (c # cs) then new @ replaceAll_from ic r new (pre y) (rest y)
          else new @ c # replaceAll_from ic r new (c # seen) cs)"
  by (subst replaceAll_from.simps) (auto split: list.splits)

lemma replace_dashes:
  "replaceAll_from False (Atom (Class [8212, 8211])) [45] seen ahead = map dashToHyphen ahead"
  by (induction ahead arbitrary: seen)
     (auto simp: replaceAll_from_Nil replaceAll_from_Cons canon_def dashToHyphen_def)

lemma normalize_map: "normalize text = map dashToHyphen text"
  by (simp add: normalize_def replaceAll_def dashes_g_def replace_dashes asc_def)

lemma star_space_hd:
  "\<exists>ys. matches ic (Star sp) (MState seen ahead k)
         = MState (rev (takeWhile is_space ahead) @ seen) (dropWhile is_space ahead) k # ys"
proof (induction ahead arbitrary: seen)
  case Nil
  show ?case by (simp add: matches.simps(5))
next
  case (Cons c cs)
  show ?case
  proof (cases "is_space c")
    case True
    from Cons[of "c # seen"] obtain ys where
      "matches ic (Star sp) (MState (c # seen) cs k)
         = MState (rev (takeWhile is_space cs) @ c # seen) (dropWhile is_space cs) k # ys" by blast
    with True show ?thesis
      by (subst matches.simps(5)) simp
  next
    case False
    then show ?thesis by (subst matches.simps(5)) simp
  qed
qed

lemma plus_space:
  "matches ic (Rep sp (Suc 0) None) (MState seen ahead k) =
     (case ahead of [] \<Rightarrow> []
      | c # cs \<Rightarrow> if is_space c then matches ic (Star sp) (MState (c # seen) cs k) else [])"
  by (subst matches.simps(5)) (simp split: list.splits)

lemma replace_spaces:
  "replaceAll_from False (Plus sp) [] seen ahead = filter (\<lambda>c. \<not> is_space c) ahead"
proof (induction "length ahead" arbitrary: seen ahead rule: less_induct)
  case less
  show ?case
  proof (cases ahead)
    case Nil
    then show ?thesis by (simp add: replaceAll_from_Nil plus_space)
  next
    case (Cons c cs)
    show ?thesis
    proof (cases "is_space c")
      case True
      from star_space_hd[of False "c # seen" cs None] obtain ys where
        ys: "matches False (Star sp) (MState (c # seen) cs None)
              = MState (rev (takeWhile is_space cs) @ c # seen) (dropWhile is_space cs) None # ys" by blast
      have len: "length (dropWhile is_space cs) < length ahead"
        using Cons length_dropWhile_le[of is_space cs] by simp
      have "filter (\<lambda>c. \<not> is_space c) cs = filter (\<lambda>c. \<not> is_space c) (dropWhile is_space cs)"
        by (induction cs) auto
      with True Cons ys len less[OF len] show ?thesis
        by (simp add: replaceAll_from_Cons plus_space)
    next
      case False
      with Cons less[of cs "c # seen"] show ?thesis
        by (simp add: replaceAll_from_Cons plus_space)
    qed
  qed
qed

lemma remove_spaces: "replaceAll spaces_g [] s = filter (\<lambda>c. \<not> is_space c) s"
  by (simp del: One_nat_def add: replaceAll_def spaces_g_def replace_spaces)

text \<open>Rule sets for evaluating the model on a given text with the simplifier.\<close>

lemmas char_eval = is_digit_def is_word_def is_space_def canon_def upper_cu_def asc_def esc_def

lemmas regex_eval = matches.simps(5) word_before_def word_after_def lit_def match_def test_def
  replaceAll_def replaceAll_from_Nil replaceAll_from_Cons trim_def toUpperCase_def startsWith_def Let_def

lemmas pattern_defs = multiSegment9_def twoPlus9_def elFormat_def shortPrefixFormat_def longPrefixFormat_def
  nineDigitSpaced_def nineDigit_def sixDigitSpaced_def sixDigit_def elStandalone_def shortStandalone_def
  longStandalone_def labelledLong_def labelledShort_def labelledEL_def hashNumber_def hashEL_def
  longPrefixPattern_def shortPrefixPattern_def longPrefixes_def shortPrefixes_def orderLabel_def
  optDashDigit_def looseSuffix_def surround_def dashDigits_def prefixFormat_def
  dashes_g_def spaces_g_def el_gi_def

lemmas order_eval = extractOrderNumber_def normalize_def patterns_def candidate_def cleanUp_def fixCase_def
  isValidFormat_def

text \<open>
  Rules for evaluating the model on a text whose characters are only known to be digits,
  or letters of a known upper case: the character tests are decided from these facts.
\<close>

lemma digit_word [simp]: "is_digit c \<Longrightarrow> is_word c"
  by (simp add: is_digit_def is_word_def)

lemma digit_not_space [simp]: "is_digit c \<Longrightarrow> \<not> is_space c"
  by (auto simp: is_digit_def is_space_def)

lemma digit_upper [simp]: "is_digit c \<Longrightarrow> upper_cu c = c"
  by (simp add: is_digit_def upper_cu_def)

lemma digit_neq_numeral: "is_digit c \<Longrightarrow> \<not> is_digit (numeral k) \<Longrightarrow> (c = numeral k) = False"
  by auto

lemma numeral_neq_digit: "is_digit c \<Longrightarrow> \<not> is_digit (numeral k) \<Longrightarrow> (numeral k = c) = False"
  by auto

lemmas numeral_chars =
  is_digit_def[of "numeral k"] is_word_def[of "numeral k"] is_space_def[of "numeral k"] upper_cu_def[of "numeral k"]
  for k

lemma letter_word: "65 \<le> upper_cu c \<Longrightarrow> upper_cu c \<le> 90 \<Longrightarrow> is_word c"
  by (auto simp: upper_cu_def is_word_def split: if_splits)

lemma letter_not_digit: "65 \<le> upper_cu c \<Longrightarrow> upper_cu c \<le> 90 \<Longrightarrow> is_digit c = False"
  by (auto simp: upper_cu_def is_digit_def split: if_splits)

lemma letter_not_space: "65 \<le> upper_cu c \<Longrightarrow> upper_cu c \<le> 90 \<Longrightarrow> is_space c = False"
  by (auto simp: upper_cu_def is_space_def split: if_splits)

lemma letter_neq:
  "65 \<le> upper_cu c \<Longrightarrow> upper_cu c \<le> 90 \<Longrightarrow> n < 65 \<or> 122 < n \<Longrightarrow> (c = n) = False"
  by (auto simp: upper_cu_def split: if_splits)

lemmas letter_neq_numeral = letter_neq[of _ "numeral k"] for k

lemmas sym_eval = numeral_chars digit_neq_numeral numeral_neq_digit canon_def asc_def esc_def
  letter_word letter_not_digit letter_not_space letter_neq_numeral

lemmas basename_eval = basename_def slice_def Let_def noteNonSlash_def matchExt_def


subsection \<open>What a match consumes\<close>

lemma matches_eats: "y \<in> set (matches ic r s) \<Longrightarrow> \<exists>w. eats ic r s w y"
  using matches_consumes[of y ic r s] by (auto simp: eats_def)

lemma eats_Eps: "eats ic Eps s w y \<longleftrightarrow> w = [] \<and> y = s"
  by (auto simp: eats_def)

lemma eats_Atom:
  "eats ic (Atom a) s w y \<longleftrightarrow>
     (\<exists>c. w = [c] \<and> cmatch ic a c \<and> rest s = c # rest y \<and> pre y = c # pre s \<and> cap y = cap s)"
  by (cases s; cases y) (auto simp: eats_def split: list.splits)

lemma eats_Seq:
  "eats ic (Seq a b) s w y \<longleftrightarrow> (\<exists>w1 w2 m. w = w1 @ w2 \<and> eats ic a s w1 m \<and> eats ic b m w2 y)"
proof
  assume "eats ic (Seq a b) s w y"
  then have y: "y \<in> set (matches ic (Seq a b) s)" and w: "rest s = w @ rest y" "pre y = rev w @ pre s"
    by (auto simp: eats_def)
  from y obtain m where m: "m \<in> set (matches ic a s)" "y \<in> set (matches ic b m)" by auto
  from matches_consumes[OF m(1)] obtain w1 where w1: "rest s = w1 @ rest m" "pre m = rev w1 @ pre s" by blast
  from matches_consumes[OF m(2)] obtain w2 where w2: "rest m = w2 @ rest y" "pre y = rev w2 @ pre m" by blast
  from w w1 w2 have "w = w1 @ w2" by simp
  with m w1 w2 show "\<exists>w1 w2 m. w = w1 @ w2 \<and> eats ic a s w1 m \<and> eats ic b m w2 y"
    unfolding eats_def by blast
next
  assume "\<exists>w1 w2 m. w = w1 @ w2 \<and> eats ic a s w1 m \<and> eats ic b m w2 y"
  then show "eats ic (Seq a b) s w y" by (auto simp: eats_def)
qed

lemma eats_Group:
  "eats ic (Group r) s w y \<longleftrightarrow> (\<exists>m. eats ic r s w m \<and> y = MState (pre m) (rest m) (Some w))"
  by (auto simp: eats_def)

lemma eats_WordB: "eats ic WordB s w y \<longleftrightarrow> w = [] \<and> y = s \<and> word_before s \<noteq> word_after s"
  by (auto simp: eats_def)

lemma eats_Bol: "eats ic Bol s w y \<longleftrightarrow> w = [] \<and> y = s \<and> pre s = []"
  by (auto simp: eats_def)

lemma eats_Eol: "eats ic Eol s w y \<longleftrightarrow> w = [] \<and> y = s \<and> rest s = []"
  by (auto simp: eats_def)

lemma eats_Rep:
  "eats ic (Rep r n m) s w y \<longleftrightarrow>
     (if m = Some 0 then w = [] \<and> y = s
      else (\<exists>w1 w2 z. w = w1 @ w2 \<and> eats ic r s w1 z \<and> \<not> (n = 0 \<and> w1 = [])
               \<and> eats ic (Rep r (n - 1) (dec m)) z w2 y)
           \<or> (n = 0 \<and> w = [] \<and> y = s))"
proof (cases "m = Some 0")
  case True
  then show ?thesis by (auto simp: eats_def in_matches_Rep)
next
  case False
  show ?thesis
  proof
    assume e: "eats ic (Rep r n m) s w y"
    then have y: "y \<in> set (matches ic (Rep r n m) s)" and w: "rest s = w @ rest y" "pre y = rev w @ pre s"
      by (auto simp: eats_def)
    from y False consider (stop) "n = 0" "y = s" |
      (again) z where "z \<in> set (matches ic r s)" "\<not> (n = 0 \<and> length (rest s) \<le> length (rest z))"
        "y \<in> set (matches ic (Rep r (n - 1) (dec m)) z)"
      by (subst (asm) in_matches_Rep) auto
    then show "if m = Some 0 then w = [] \<and> y = s
      else (\<exists>w1 w2 z. w = w1 @ w2 \<and> eats ic r s w1 z \<and> \<not> (n = 0 \<and> w1 = [])
               \<and> eats ic (Rep r (n - 1) (dec m)) z w2 y)
           \<or> (n = 0 \<and> w = [] \<and> y = s)"
    proof cases
      case stop
      with w False show ?thesis by simp
    next
      case again
      from matches_consumes[OF again(1)] obtain w1 where w1: "rest s = w1 @ rest z" "pre z = rev w1 @ pre s" by blast
      from matches_consumes[OF again(3)] obtain w2 where w2: "rest z = w2 @ rest y" "pre y = rev w2 @ pre z" by blast
      from w w1 w2 have "w = w1 @ w2" by simp
      moreover from again(2) w1 have "\<not> (n = 0 \<and> w1 = [])" by auto
      moreover have "eats ic r s w1 z" unfolding eats_def using again(1) w1 by simp
      moreover have "eats ic (Rep r (n - 1) (dec m)) z w2 y" unfolding eats_def using again(3) w2 by simp
      ultimately have "\<exists>w1 w2 z. w = w1 @ w2 \<and> eats ic r s w1 z \<and> \<not> (n = 0 \<and> w1 = [])
               \<and> eats ic (Rep r (n - 1) (dec m)) z w2 y" by blast
      with False show ?thesis by simp
    qed
  next
    assume r: "if m = Some 0 then w = [] \<and> y = s
      else (\<exists>w1 w2 z. w = w1 @ w2 \<and> eats ic r s w1 z \<and> \<not> (n = 0 \<and> w1 = [])
               \<and> eats ic (Rep r (n - 1) (dec m)) z w2 y)
           \<or> (n = 0 \<and> w = [] \<and> y = s)"
    with False consider (stop) "n = 0" "w = []" "y = s" |
      (again) w1 w2 z where "w = w1 @ w2" "eats ic r s w1 z" "\<not> (n = 0 \<and> w1 = [])"
         "eats ic (Rep r (n - 1) (dec m)) z w2 y"
      by auto
    then show "eats ic (Rep r n m) s w y"
    proof cases
      case stop
      with False show ?thesis unfolding eats_def by (subst in_matches_Rep) auto
    next
      case again
      from again(2) again(3) have ng: "\<not> (n = 0 \<and> length (rest s) \<le> length (rest z))"
        by (auto simp: eats_def)
      from again(2,4) have z: "z \<in> set (matches ic r s)"
        and y': "y \<in> set (matches ic (Rep r (n - 1) (dec m)) z)"
        and c: "rest s = w1 @ rest z" "pre z = rev w1 @ pre s" "rest z = w2 @ rest y" "pre y = rev w2 @ pre z"
        by (auto simp: eats_def)
      have "\<exists>z \<in> set (matches ic r s). \<not> (n = 0 \<and> length (rest s) \<le> length (rest z))
               \<and> y \<in> set (matches ic (Rep r (n - 1) (dec m)) z)"
        using z y' ng by blast
      with False have "y \<in> set (matches ic (Rep r n m) s)"
        by (subst in_matches_Rep) simp
      with c again(1) show ?thesis by (simp add: eats_def)
    qed
  qed
qed

lemma eats_star_space:
  assumes "eats ic (Star sp) s w y"
  shows "list_all is_space w \<and> cap y = cap s"
proof -
  from assms have y: "y \<in> set (matches ic (Star sp) s)" and w: "rest s = w @ rest y" "pre y = rev w @ pre s"
    by (auto simp: eats_def)
  have "\<exists>u. pre y = rev u @ pre s \<and> list_all is_space u \<and> cap y = cap s"
  proof (rule rep_invariant[OF y, where P="\<lambda>t. \<exists>u. pre t = rev u @ pre s \<and> list_all is_space u \<and> cap t = cap s"])
    show "\<exists>u. pre s = rev u @ pre s \<and> list_all is_space u \<and> cap s = cap s"
      by (rule exI[of _ "[]"]) simp
  next
    fix a b
    assume a: "\<exists>u. pre a = rev u @ pre s \<and> list_all is_space u \<and> cap a = cap s"
      and b: "b \<in> set (matches ic sp a)"
    from a obtain u where u: "pre a = rev u @ pre s" "list_all is_space u" "cap a = cap s" by blast
    from b obtain c where c: "pre b = c # pre a" "is_space c" "cap b = cap a"
      by (cases a) (auto split: list.splits if_splits)
    show "\<exists>u. pre b = rev u @ pre s \<and> list_all is_space u \<and> cap b = cap s"
      by (rule exI[of _ "u @ [c]"]) (simp add: u c)
  qed
  then obtain u where u: "pre y = rev u @ pre s" "list_all is_space u" "cap y = cap s" by blast
  with w have "u = w" by simp
  with u show ?thesis by simp
qed

lemma eats_digits:
  "eats ic (Rep d n (Some m)) s w y \<Longrightarrow> n \<le> m \<Longrightarrow>
     list_all is_digit w \<and> n \<le> length w \<and> length w \<le> m \<and> cap y = cap s"
proof (induction m arbitrary: n s w)
  case 0
  then show ?case by (subst (asm) eats_Rep) simp
next
  case (Suc m)
  from Suc.prems(1) consider (stop) "n = 0" "w = []" "y = s" |
      (again) w1 w2 z where "w = w1 @ w2" "eats ic d s w1 z" "eats ic (Rep d (n - 1) (Some m)) z w2 y"
    by (subst (asm) eats_Rep) auto
  then show ?case
  proof cases
    case stop
    then show ?thesis by simp
  next
    case again
    from again(2) obtain c where c: "w1 = [c]" "is_digit c" "cap z = cap s"
      by (auto simp: eats_Atom)
    from Suc.prems(2) have "n - 1 \<le> m" by simp
    from Suc.IH[OF again(3) this] again(1) c Suc.prems(2) show ?thesis by auto
  qed
qed

lemma digits_eaten:
  "list_all is_digit w \<Longrightarrow> n \<le> length w \<Longrightarrow> length w \<le> m \<Longrightarrow>
     MState (rev w @ seen) ahead k \<in> set (matches ic (Rep d n (Some m)) (MState seen (w @ ahead) k))"
proof (induction w arbitrary: n m seen)
  case Nil
  then show ?case by (subst in_matches_Rep) auto
next
  case (Cons c w)
  from Cons.prems obtain m' where m': "m = Suc m'" by (cases m) auto
  have z: "MState (c # seen) (w @ ahead) k \<in> set (matches ic d (MState seen ((c # w) @ ahead) k))"
    using Cons.prems(1) by simp
  have "MState (rev w @ c # seen) ahead k \<in> set (matches ic (Rep d (n - 1) (Some m')) (MState (c # seen) (w @ ahead) k))"
    using Cons.prems m' by (intro Cons.IH) auto
  with z m' show ?case
    by (subst in_matches_Rep) (auto intro!: bexI[of _ "MState (c # seen) (w @ ahead) k"])
qed


section \<open>Only validated order numbers are returned\<close>

lemma extractOrderNumber_cascade:
  "snd (extractOrderNumber text) = snd (cascade (normalize text) patterns)"
  by (simp add: extractOrderNumber_def Let_def split: prod.splits option.splits)


lemma cascade_valid:
  "cascade nt ps = (l, Some f) \<Longrightarrow> isValidFormat f"
proof (induction ps arbitrary: l)
  case Nil
  then show ?case by simp
next
  case (Cons p ps)
  show ?case
  proof (cases "match nt p")
    case None
    with Cons show ?thesis by simp
  next
    case (Some m)
    show ?thesis
    proof (cases "isValidFormat (candidate m)")
      case True
      with Some Cons.prems show ?thesis by (simp add: Let_def)
    next
      case False
      with Some Cons.prems obtain l' where "cascade nt ps = (l', Some f)"
        by (auto simp: Let_def split: prod.splits)
      from Cons.IH[OF this] show ?thesis .
    qed
  qed
qed

lemma dashDigits_end:
  assumes "y \<in> set (matches ic dashDigits s)"
  shows "\<exists>p x. pre y = x # 45 # p \<and> is_digit x"
proof -
  let ?r = "Seq (ch CHR ''-'') d"
  from assms obtain z where z: "z \<in> set (matches ic ?r s)" and y: "y \<in> set (matches ic (Star ?r) z)"
    unfolding dashDigits_def by (subst (asm) in_matches_Rep) auto
  have step: "\<exists>p x. pre b = x # 45 # p \<and> is_digit x" if "b \<in> set (matches ic ?r a)" for a b
    using that by (cases a) (auto simp: canon_def upper_cu_def split: list.splits if_splits)
  from step[OF z] have "\<exists>p x. pre z = x # 45 # p \<and> is_digit x" .
  from rep_invariant[where P="\<lambda>t. \<exists>p x. pre t = x # 45 # p \<and> is_digit x", OF y this]
  show ?thesis using step by blast
qed

lemma seqs_append_two:
  "seqs (rs @ [a, b]) = (case rs of [] \<Rightarrow> Seq a b | r # rs' \<Rightarrow> Seq r (seqs (rs' @ [a, b])))"
  by (cases rs; cases "tl rs") auto

lemma validator_end:
  "y \<in> set (matches ic (seqs (rs @ [dashDigits, Eol])) s) \<Longrightarrow>
     \<exists>p x. pre y = x # 45 # p \<and> is_digit x \<and> rest y = []"
proof (induction rs arbitrary: s)
  case Nil
  then obtain z where "z \<in> set (matches ic dashDigits s)" "y \<in> set (matches ic Eol z)"
    by auto
  with dashDigits_end[of z ic s] show ?case by (auto split: if_splits)
next
  case (Cons r rs)
  then obtain z where "y \<in> set (matches ic (seqs (rs @ [dashDigits, Eol])) z)"
    by (subst (asm) seqs_append_two) auto
  from Cons.IH[OF this] show ?case .
qed

lemma test_validator_suffix:
  assumes "test \<lparr>source = src, ignoreCase = ic, body = seqs (rs @ [dashDigits, Eol])\<rparr> f"
  shows "\<exists>b x. f = b @ [45, x] \<and> is_digit x"
proof -
  from assms obtain m where "exec_from ic (seqs (rs @ [dashDigits, Eol])) [] f = Some m"
    by (auto simp: test_def match_def)
  from exec_from_Some[OF this] obtain u v y ys where
    h: "f = u @ v" "matches ic (seqs (rs @ [dashDigits, Eol])) (MState (rev u @ []) v None) = y # ys" by blast
  then have y: "y \<in> set (matches ic (seqs (rs @ [dashDigits, Eol])) (MState (rev u) v None))" by simp
  from validator_end[OF y] obtain p x where e: "pre y = x # 45 # p" "is_digit x" "rest y = []" by blast
  from matches_consumes[OF y] obtain w where w: "v = w @ rest y" "pre y = rev w @ rev u" by auto
  from w e have "rev (u @ w) = x # 45 # p" "f = u @ w" using h by auto
  then have "f = rev p @ [45, x]" by (metis rev_rev_ident rev.simps(2) append_assoc append_Cons append_Nil)
  with e show ?thesis by blast
qed

lemma isValidFormat_suffix:
  assumes "isValidFormat f"
  shows "\<exists>b x. f = b @ [45, x] \<and> is_digit x"
proof -
  have a: "seqs [Bol, ch CHR ''2'', Times 9 d, dashDigits, Eol] = seqs ([Bol, ch CHR ''2'', Times 9 d] @ [dashDigits, Eol])"
    and b: "seqs [Bol, lit ''EL'', Times 6 d, lit ''EL'', dashDigits, Eol] = seqs ([Bol, lit ''EL'', Times 6 d, lit ''EL''] @ [dashDigits, Eol])"
    and c: "\<And>n p. seqs [Bol, lit p, Times n d, dashDigits, Eol] = seqs ([Bol, lit p, Times n d] @ [dashDigits, Eol])"
    and e: "\<And>n. seqs [Bol, Times n d, dashDigits, Eol] = seqs ([Bol, Times n d] @ [dashDigits, Eol])"
    by simp_all
  from assms show ?thesis
    unfolding isValidFormat_def prefixFormat_def list_ex_iff a b c e
    by (blast dest: test_validator_suffix)
qed

text \<open>
  C1. Whatever text is given, a string that \<open>extractOrderNumber\<close> returns has passed
  \<open>isValidFormat\<close>, and every format of \<open>isValidFormat\<close> ends in a hyphen followed by a
  digit: the returned string has that suffix, so it is never a bare sequence of digits.
\<close>

theorem extractOrderNumber_validated:
  assumes "snd (extractOrderNumber text) = Some f"
  shows "isValidFormat f \<and> (\<exists>b x. f = b @ asc ''-'' @ [x] \<and> is_digit x) \<and> \<not> list_all is_digit f"
proof -
  from assms obtain l where "cascade (normalize text) patterns = (l, Some f)"
    by (auto simp: extractOrderNumber_def Let_def split: prod.splits option.splits)
  then have v: "isValidFormat f" by (rule cascade_valid)
  from isValidFormat_suffix[OF v] obtain b x where bx: "f = b @ [45, x]" "is_digit x" by blast
  then have "\<not> list_all is_digit f" by (simp add: is_digit_def)
  with v bx show ?thesis by (auto simp: asc_def)
qed

theorem extractOrderNumber_validated_witness:
  "snd (extractOrderNumber (asc ''123456-1'')) = Some (asc ''123456-1'')
   \<and> isValidFormat (asc ''123456-1'')
   \<and> (\<exists>b x. asc ''123456-1'' = b @ asc ''-'' @ [x] \<and> is_digit x)
   \<and> \<not> list_all is_digit (asc ''123456-1'')"
proof -
  have h: "snd (extractOrderNumber (asc ''123456-1'')) = Some (asc ''123456-1'')"
    by (simp add: order_eval pattern_defs regex_eval char_eval)
  from extractOrderNumber_validated[OF h] h show ?thesis by blast
qed

text \<open>
  The bare number \<open>123456789\<close> is matched by the pattern for 9-digit numbers, its
  candidate fails the validation, and no order number is returned.
\<close>

lemma bare_digits_rejected:
  "map_option candidate (match (asc ''123456789'') nineDigit) = Some (asc ''123456789'')
   \<and> \<not> isValidFormat (asc ''123456789'')
   \<and> snd (extractOrderNumber (asc ''123456789'')) = None"
  by (simp add: order_eval pattern_defs regex_eval char_eval)


section \<open>Normalizing the text\<close>

text \<open>
  C8. Normalization replaces every em dash (U+2014) and en dash (U+2013) by the ASCII
  hyphen and leaves every other character as it is; it is a total function of the text,
  of the same length, and normalizing a second time changes nothing.
\<close>

theorem normalize_dashes_idempotent:
  "normalize text = map (\<lambda>c. if c = 8212 \<or> c = 8211 then 45 else c) text
   \<and> length (normalize text) = length text
   \<and> normalize (normalize text) = normalize text"
proof -
  have "dashToHyphen = (\<lambda>c. if c = 8212 \<or> c = 8211 then 45 else c)"
    by (rule ext) (simp add: dashToHyphen_def)
  moreover have "map dashToHyphen (map dashToHyphen text) = map dashToHyphen text"
    by (simp add: dashToHyphen_def)
  ultimately show ?thesis by (simp add: normalize_map)
qed


section \<open>The case of the EL format\<close>

lemma matches_el:
  "matches True (lit ''el'') (MState seen ahead k) =
     (case ahead of
        a # b # cs \<Rightarrow> if upper_cu a = 69 \<and> upper_cu b = 76 then [MState (b # a # seen) cs k] else []
      | _ \<Rightarrow> [])"
  by (auto simp: lit_def canon_def upper_cu_def split: list.splits)

lemma replace_el:
  "replaceAll_from True (lit ''el'') [69, 76] seen ahead = upperEveryEL ahead"
  by (induction ahead arbitrary: seen rule: upperEveryEL.induct)
     (simp_all add: replaceAll_from_Cons replaceAll_from_Nil matches_el)

lemma normalizePrefix_EL:
  assumes "startsWith (toUpperCase f) (asc ''EL'')"
  shows "normalizePrefix (longPrefixes @ shortPrefixes) f = f"
proof -
  from assms obtain a b r where f: "toUpperCase f = 69 # 76 # r"
    by (cases "toUpperCase f"; cases "tl (toUpperCase f)") (auto simp: startsWith_def asc_def)
  have p: "toUpperCase (asc ''EJR'') = [69, 74, 82]" "toUpperCase (asc ''EJC'') = [69, 74, 67]"
    "toUpperCase (asc ''MH'') = [77, 72]" "toUpperCase (asc ''R'') = [82]" "toUpperCase (asc ''AL'') = [65, 76]"
    by (simp_all add: toUpperCase_def asc_def upper_cu_def)
  show ?thesis
    by (simp add: longPrefixes_def shortPrefixes_def startsWith_def f p)
qed

text \<open>
  C7, as the code has it. A candidate that starts with \<open>EL\<close> (in any case) is normalized
  by turning every occurrence of \<open>el\<close> into upper case when it also contains \<open>EL-\<close>, that
  is when a suffix follows the second \<open>EL\<close>; without \<open>EL-\<close> it is left as it is. The text
  \<open>el649453el-1\<close> gives the order number \<open>EL649453EL-1\<close>.
\<close>

theorem fixCase_EL:
  assumes "startsWith (toUpperCase f) (asc ''EL'')"
  shows "(js_includes (toUpperCase f) (asc ''EL-'') \<longrightarrow> fixCase f = upperEveryEL f)
         \<and> (\<not> js_includes (toUpperCase f) (asc ''EL-'') \<longrightarrow> fixCase f = f)
         \<and> snd (extractOrderNumber (asc ''el649453el-1'')) = Some (asc ''EL649453EL-1'')"
proof -
  have "js_includes (toUpperCase f) (asc ''EL-'') \<Longrightarrow> fixCase f = upperEveryEL f"
    using assms by (simp add: fixCase_def replaceAll_def el_gi_def replace_el asc_def)
  moreover have "\<not> js_includes (toUpperCase f) (asc ''EL-'') \<Longrightarrow> fixCase f = f"
    using assms normalizePrefix_EL[OF assms] by (simp add: fixCase_def)
  moreover have "snd (extractOrderNumber (asc ''el649453el-1'')) = Some (asc ''EL649453EL-1'')"
    by (simp add: order_eval pattern_defs regex_eval char_eval)
  ultimately show ?thesis by blast
qed

theorem fixCase_EL_witness:
  "startsWith (toUpperCase (asc ''el649453el-1'')) (asc ''EL'')
   \<and> js_includes (toUpperCase (asc ''el649453el-1'')) (asc ''EL-'')
   \<and> fixCase (asc ''el649453el-1'') = asc ''EL649453EL-1''
   \<and> upperEveryEL (asc ''el649453el-1'') = asc ''EL649453EL-1''"
proof -
  have a: "startsWith (toUpperCase (asc ''el649453el-1'')) (asc ''EL'')"
    by (simp add: regex_eval char_eval)
  have b: "js_includes (toUpperCase (asc ''el649453el-1'')) (asc ''EL-'')"
    by (simp add: regex_eval char_eval)
  have c: "upperEveryEL (asc ''el649453el-1'') = asc ''EL649453EL-1''"
    by (simp add: char_eval)
  from fixCase_EL[OF a] a b c show ?thesis by simp
qed

text \<open>
  C7, as stated, speaks of every candidate of the EL format. The candidate
  \<open>el649453el\<close>, which the pattern for the EL format matches without a suffix, keeps its
  lower case.
\<close>

theorem suffixless_EL_kept:
  "map_option candidate (match (asc ''el649453el'') elFormat) = Some (asc ''el649453el'')
   \<and> startsWith (toUpperCase (asc ''el649453el'')) (asc ''EL'')
   \<and> fixCase (asc ''el649453el'') = asc ''el649453el''
   \<and> upperEveryEL (asc ''el649453el'') = asc ''EL649453EL''"
  by (simp add: order_eval pattern_defs regex_eval char_eval)


section \<open>The order of the cascade\<close>

lemma cascade_firstValidated: "snd (cascade nt ps) = firstValidated nt ps"
  by (induction ps) (auto simp: validated_def Let_def split: option.splits prod.splits)

text \<open>
  C2, as the code has it. The cascade applies its patterns in the fixed order of the
  source: the multi-segment 9-digit form, 2 + 9 digits, the EL format, the short and the
  long prefixes, the bare 9-digit and 6-digit runs, the standalone forms, and only then
  the patterns that require the word \<open>Order\<close> or a \<open>#\<close> marker. The first pattern of this
  sequence that produces a validated match wins, whatever a later pattern would match.
\<close>

theorem cascade_order:
  "snd (extractOrderNumber text) =
     firstValidated (normalize text)
       [multiSegment9, twoPlus9, elFormat, shortPrefixFormat, longPrefixFormat,
        nineDigitSpaced, nineDigit, sixDigitSpaced, sixDigit,
        elStandalone, shortStandalone, longStandalone,
        labelledLong, labelledShort, labelledEL, hashNumber, hashEL]"
proof -
  have "snd (extractOrderNumber text) = snd (cascade (normalize text) patterns)"
    by (simp add: extractOrderNumber_def Let_def split: prod.splits option.splits)
  also have "\<dots> = firstValidated (normalize text) patterns"
    by (rule cascade_firstValidated)
  finally show ?thesis unfolding patterns_def .
qed

text \<open>
  C2, as stated, puts the patterns that require the word \<open>Order\<close> before the bare digit
  runs. In the text \<open>111111-1 Order Number: 222222-2\<close> the labelled pattern produces the
  validated match \<open>222222-2\<close> and the bare 6-digit pattern produces \<open>111111-1\<close>; the
  bare pattern wins.
\<close>

theorem labelled_after_bare:
  "validated labelledLong (normalize (asc ''111111-1 Order Number: 222222-2'')) = Some (asc ''222222-2'')
   \<and> validated sixDigitSpaced (normalize (asc ''111111-1 Order Number: 222222-2'')) = Some (asc ''111111-1'')
   \<and> snd (extractOrderNumber (asc ''111111-1 Order Number: 222222-2'')) = Some (asc ''111111-1'')"
  by (simp add: validated_def order_eval pattern_defs regex_eval char_eval)


section \<open>A labelled match and a bare 6-digit sequence\<close>







section \<open>Canonical order numbers are returned\<close>

text \<open>
  The order number found in a text that is one canonical string of a family, its digits
  arbitrary: one lemma for each prefix and each bare form.
\<close>

lemma fam_long_ejr:
  assumes "is_digit a1" "is_digit a2" "is_digit a3" "is_digit a4" "is_digit a5" "is_digit a6" "is_digit x"
    and "upper_cu p1 = 69" "upper_cu p2 = 74" "upper_cu p3 = 82"
  shows "snd (extractOrderNumber [p1, p2, p3, a1, a2, a3, a4, a5, a6, 45, x]) = Some [69, 74, 82, a1, a2, a3, a4, a5, a6, 45, x]"
  using assms
  by (simp add: order_eval pattern_defs regex_eval sym_eval)

lemma fam_long_ejc:
  assumes "is_digit a1" "is_digit a2" "is_digit a3" "is_digit a4" "is_digit a5" "is_digit a6" "is_digit x"
    and "upper_cu p1 = 69" "upper_cu p2 = 74" "upper_cu p3 = 67"
  shows "snd (extractOrderNumber [p1, p2, p3, a1, a2, a3, a4, a5, a6, 45, x]) = Some [69, 74, 67, a1, a2, a3, a4, a5, a6, 45, x]"
  using assms
  by (simp add: order_eval pattern_defs regex_eval sym_eval)

lemma fam_long_mh:
  assumes "is_digit a1" "is_digit a2" "is_digit a3" "is_digit a4" "is_digit a5" "is_digit a6" "is_digit x"
    and "upper_cu p1 = 77" "upper_cu p2 = 72"
  shows "snd (extractOrderNumber [p1, p2, a1, a2, a3, a4, a5, a6, 45, x]) = Some [77, 72, a1, a2, a3, a4, a5, a6, 45, x]"
  using assms
  by (simp add: order_eval pattern_defs regex_eval sym_eval)

lemma fam_short_r:
  assumes "is_digit a1" "is_digit a2" "is_digit a3" "is_digit a4" "is_digit x"
    and "upper_cu p1 = 82"
  shows "snd (extractOrderNumber [p1, a1, a2, a3, a4, 45, x]) = Some [82, a1, a2, a3, a4, 45, x]"
  using assms
  by (simp add: order_eval pattern_defs regex_eval sym_eval)

lemma fam_short_al:
  assumes "is_digit a1" "is_digit a2" "is_digit a3" "is_digit a4" "is_digit x"
    and "upper_cu p1 = 65" "upper_cu p2 = 76"
  shows "snd (extractOrderNumber [p1, p2, a1, a2, a3, a4, 45, x]) = Some [65, 76, a1, a2, a3, a4, 45, x]"
  using assms
  by (simp add: order_eval pattern_defs regex_eval sym_eval)

lemma fam_el:
  assumes "is_digit a1" "is_digit a2" "is_digit a3" "is_digit a4" "is_digit a5" "is_digit a6" "is_digit x"
    and "upper_cu p1 = 69" "upper_cu p2 = 76" "upper_cu p3 = 69" "upper_cu p4 = 76"
  shows "snd (extractOrderNumber [p1, p2, a1, a2, a3, a4, a5, a6, p3, p4, 45, x]) = Some [69, 76, a1, a2, a3, a4, a5, a6, 69, 76, 45, x]"
  using assms
  by (simp add: order_eval pattern_defs regex_eval sym_eval)

lemma fam_two:
  assumes "is_digit a1" "is_digit a2" "is_digit a3" "is_digit a4" "is_digit a5" "is_digit a6" "is_digit a7" "is_digit a8" "is_digit a9" "is_digit x"
  shows "snd (extractOrderNumber [50, a1, a2, a3, a4, a5, a6, a7, a8, a9, 45, x]) = Some [50, a1, a2, a3, a4, a5, a6, a7, a8, a9, 45, x]"
  using assms
  by (simp add: order_eval pattern_defs regex_eval sym_eval)

lemma fam_bare9:
  assumes "is_digit a1" "is_digit a2" "is_digit a3" "is_digit a4" "is_digit a5" "is_digit a6" "is_digit a7" "is_digit a8" "is_digit a9" "is_digit x"
  shows "snd (extractOrderNumber [a1, a2, a3, a4, a5, a6, a7, a8, a9, 45, x]) = Some [a1, a2, a3, a4, a5, a6, a7, a8, a9, 45, x]"
  using assms
  by (simp add: order_eval pattern_defs regex_eval sym_eval)

lemma fam_bare6:
  assumes "is_digit a1" "is_digit a2" "is_digit a3" "is_digit a4" "is_digit a5" "is_digit a6" "is_digit x"
  shows "snd (extractOrderNumber [a1, a2, a3, a4, a5, a6, 45, x]) = Some [a1, a2, a3, a4, a5, a6, 45, x]"
  using assms
  by (simp add: order_eval pattern_defs regex_eval sym_eval)

lemma digitRun_0: "digitRun 0 r \<longleftrightarrow> r = []"
  by (auto simp: digitRun_def)

lemma digitRun_Suc: "digitRun (Suc n) r \<longleftrightarrow> (\<exists>a t. r = a # t \<and> is_digit a \<and> digitRun n t)"
  by (cases r) (auto simp: digitRun_def)

lemma dashDigit_iff: "dashDigit s \<longleftrightarrow> (\<exists>x. s = [45, x] \<and> is_digit x)"
  by (auto simp: dashDigit_def split: list.splits)

lemma toUpperCase_Cons: "toUpperCase u = k # ks \<longleftrightarrow> (\<exists>p ps. u = p # ps \<and> upper_cu p = k \<and> toUpperCase ps = ks)"
  by (auto simp: toUpperCase_def map_eq_Cons_conv)

lemma toUpperCase_Nil: "toUpperCase u = [] \<longleftrightarrow> u = []"
  by (simp add: toUpperCase_def)

lemma canonical_split:
  assumes "canonicalFormat fam s"
  shows "\<exists>r x. s = r @ [45, x] \<and> is_digit x \<and> familyRoot fam r"
proof -
  from assms obtain x where x: "drop (length s - 2) s = [45, x]" "is_digit x"
    and r: "familyRoot fam (take (length s - 2) s)"
    by (auto simp: canonicalFormat_def dashDigit_iff)
  have "s = take (length s - 2) s @ drop (length s - 2) s" by simp
  with x r show ?thesis by metis
qed


lemma split_take_drop: "take n r = u \<Longrightarrow> drop n r = v \<Longrightarrow> r = u @ v"
  by (metis append_take_drop_id)

lemma digits6:
  assumes "digitRun 6 t"
  obtains a1 a2 a3 a4 a5 a6 where "t = [a1, a2, a3, a4, a5, a6]"
    "is_digit a1" "is_digit a2" "is_digit a3" "is_digit a4" "is_digit a5" "is_digit a6"
  using assms by (auto simp: eval_nat_numeral digitRun_Suc digitRun_0)

lemma digits4:
  assumes "digitRun 4 t"
  obtains a1 a2 a3 a4 where "t = [a1, a2, a3, a4]" "is_digit a1" "is_digit a2" "is_digit a3" "is_digit a4"
  using assms by (auto simp: eval_nat_numeral digitRun_Suc digitRun_0)

lemma digits9:
  assumes "digitRun 9 t"
  obtains a1 a2 a3 a4 a5 a6 a7 a8 a9 where "t = [a1, a2, a3, a4, a5, a6, a7, a8, a9]"
    "is_digit a1" "is_digit a2" "is_digit a3" "is_digit a4" "is_digit a5" "is_digit a6"
    "is_digit a7" "is_digit a8" "is_digit a9"
  using assms by (auto simp: eval_nat_numeral digitRun_Suc digitRun_0)

lemma upper3:
  assumes "toUpperCase u = [k1, k2, k3]"
  obtains p1 p2 p3 where "u = [p1, p2, p3]" "upper_cu p1 = k1" "upper_cu p2 = k2" "upper_cu p3 = k3"
  using assms by (auto simp: toUpperCase_Cons toUpperCase_Nil)

lemma upper2:
  assumes "toUpperCase u = [k1, k2]"
  obtains p1 p2 where "u = [p1, p2]" "upper_cu p1 = k1" "upper_cu p2 = k2"
  using assms by (auto simp: toUpperCase_Cons toUpperCase_Nil)

lemma upper1:
  assumes "toUpperCase u = [k1]"
  obtains p1 where "u = [p1]" "upper_cu p1 = k1"
  using assms by (auto simp: toUpperCase_Cons toUpperCase_Nil)

lemma upper_hyphen: "upper_cu 45 = 45"
  by (simp add: upper_cu_def)

lemma canonical_long:
  assumes "canonicalFormat LongPrefix s"
  shows "snd (extractOrderNumber s) = Some (toUpperCase s)"
proof -
  from canonical_split[OF assms] obtain r x where
    s: "s = r @ [45, x]" "is_digit x" and r: "familyRoot LongPrefix r" by blast
  from r consider
      (ejr) "toUpperCase (take 3 r) = [69, 74, 82]" "digitRun 6 (drop 3 r)"
    | (ejc) "toUpperCase (take 3 r) = [69, 74, 67]" "digitRun 6 (drop 3 r)"
    | (mh) "toUpperCase (take 2 r) = [77, 72]" "digitRun 6 (drop 2 r)"
    by (auto simp: longPrefixes_def asc_def numeral_3_eq_3 numeral_2_eq_2)
  then show ?thesis
  proof cases
    case ejr
    from ejr(1) obtain p1 p2 p3 where p: "take 3 r = [p1, p2, p3]" "upper_cu p1 = 69" "upper_cu p2 = 74" "upper_cu p3 = 82"
      by (rule upper3)
    from ejr(2) obtain a1 a2 a3 a4 a5 a6 where a: "drop 3 r = [a1, a2, a3, a4, a5, a6]"
      "is_digit a1" "is_digit a2" "is_digit a3" "is_digit a4" "is_digit a5" "is_digit a6"
      by (rule digits6)
    from split_take_drop[OF p(1) a(1)] s have "s = [p1, p2, p3, a1, a2, a3, a4, a5, a6, 45, x]" by simp
    with fam_long_ejr[OF a(2-7) s(2) p(2-4)] a(2-7) s(2) p(2-4) show ?thesis
      by (simp add: toUpperCase_def digit_upper upper_hyphen)
  next
    case ejc
    from ejc(1) obtain p1 p2 p3 where p: "take 3 r = [p1, p2, p3]" "upper_cu p1 = 69" "upper_cu p2 = 74" "upper_cu p3 = 67"
      by (rule upper3)
    from ejc(2) obtain a1 a2 a3 a4 a5 a6 where a: "drop 3 r = [a1, a2, a3, a4, a5, a6]"
      "is_digit a1" "is_digit a2" "is_digit a3" "is_digit a4" "is_digit a5" "is_digit a6"
      by (rule digits6)
    from split_take_drop[OF p(1) a(1)] s have "s = [p1, p2, p3, a1, a2, a3, a4, a5, a6, 45, x]" by simp
    with fam_long_ejc[OF a(2-7) s(2) p(2-4)] a(2-7) s(2) p(2-4) show ?thesis
      by (simp add: toUpperCase_def digit_upper upper_hyphen)
  next
    case mh
    from mh(1) obtain p1 p2 where p: "take 2 r = [p1, p2]" "upper_cu p1 = 77" "upper_cu p2 = 72"
      by (rule upper2)
    from mh(2) obtain a1 a2 a3 a4 a5 a6 where a: "drop 2 r = [a1, a2, a3, a4, a5, a6]"
      "is_digit a1" "is_digit a2" "is_digit a3" "is_digit a4" "is_digit a5" "is_digit a6"
      by (rule digits6)
    from split_take_drop[OF p(1) a(1)] s have "s = [p1, p2, a1, a2, a3, a4, a5, a6, 45, x]" by simp
    with fam_long_mh[OF a(2-7) s(2) p(2-3)] a(2-7) s(2) p(2-3) show ?thesis
      by (simp add: toUpperCase_def digit_upper upper_hyphen)
  qed
qed
lemma canonical_short:
  assumes "canonicalFormat ShortPrefix s"
  shows "snd (extractOrderNumber s) = Some (toUpperCase s)"
proof -
  from canonical_split[OF assms] obtain r x where
    s: "s = r @ [45, x]" "is_digit x" and r: "familyRoot ShortPrefix r" by blast
  from r consider
      (r) "toUpperCase (take 1 r) = [82]" "digitRun 4 (drop 1 r)"
    | (al) "toUpperCase (take 2 r) = [65, 76]" "digitRun 4 (drop 2 r)"
    by (auto simp: shortPrefixes_def asc_def numeral_2_eq_2)
  then show ?thesis
  proof cases
    case r
    from r(1) obtain p1 where p: "take 1 r = [p1]" "upper_cu p1 = 82"
      by (rule upper1)
    from r(2) obtain a1 a2 a3 a4 where a: "drop 1 r = [a1, a2, a3, a4]"
      "is_digit a1" "is_digit a2" "is_digit a3" "is_digit a4"
      by (rule digits4)
    from split_take_drop[OF p(1) a(1)] s have "s = [p1, a1, a2, a3, a4, 45, x]" by simp
    with fam_short_r[OF a(2-5) s(2) p(2-2)] a(2-5) s(2) p(2-2) show ?thesis
      by (simp add: toUpperCase_def digit_upper upper_hyphen)
  next
    case al
    from al(1) obtain p1 p2 where p: "take 2 r = [p1, p2]" "upper_cu p1 = 65" "upper_cu p2 = 76"
      by (rule upper2)
    from al(2) obtain a1 a2 a3 a4 where a: "drop 2 r = [a1, a2, a3, a4]"
      "is_digit a1" "is_digit a2" "is_digit a3" "is_digit a4"
      by (rule digits4)
    from split_take_drop[OF p(1) a(1)] s have "s = [p1, p2, a1, a2, a3, a4, 45, x]" by simp
    with fam_short_al[OF a(2-5) s(2) p(2-3)] a(2-5) s(2) p(2-3) show ?thesis
      by (simp add: toUpperCase_def digit_upper upper_hyphen)
  qed
qed

lemma canonical_el:
  assumes "canonicalFormat ELWrapped s"
  shows "snd (extractOrderNumber s) = Some (toUpperCase s)"
proof -
  from canonical_split[OF assms] obtain r x where
    s: "s = r @ [45, x]" "is_digit x" and r: "familyRoot ELWrapped r" by blast
  from r have u: "toUpperCase (take 2 r) = [69, 76]" and dr: "digitRun 6 (take 6 (drop 2 r))"
    and w: "toUpperCase (drop 8 r) = [69, 76]"
    by (simp_all add: asc_def)
  from u obtain p1 p2 where p: "take 2 r = [p1, p2]" "upper_cu p1 = 69" "upper_cu p2 = 76"
    by (rule upper2)
  from dr obtain a1 a2 a3 a4 a5 a6 where a: "take 6 (drop 2 r) = [a1, a2, a3, a4, a5, a6]"
    "is_digit a1" "is_digit a2" "is_digit a3" "is_digit a4" "is_digit a5" "is_digit a6"
    by (rule digits6)
  from w obtain p3 p4 where q: "drop 8 r = [p3, p4]" "upper_cu p3 = 69" "upper_cu p4 = 76"
    by (rule upper2)
  have "drop 6 (drop 2 r) = [p3, p4]" using q(1) by simp
  from split_take_drop[OF a(1) this] have "drop 2 r = [a1, a2, a3, a4, a5, a6, p3, p4]" by simp
  from split_take_drop[OF p(1) this] s have "s = [p1, p2, a1, a2, a3, a4, a5, a6, p3, p4, 45, x]" by simp
  with fam_el[OF a(2-7) s(2) p(2-3) q(2-3)] a(2-7) s(2) p(2-3) q(2-3) show ?thesis
    by (simp add: toUpperCase_def digit_upper upper_hyphen)
qed

lemma canonical_two:
  assumes "canonicalFormat LeadingTwo s"
  shows "snd (extractOrderNumber s) = Some (toUpperCase s)"
proof -
  from canonical_split[OF assms] obtain r x where
    s: "s = r @ [45, x]" "is_digit x" and r: "familyRoot LeadingTwo r" by blast
  from r have t: "take 1 r = [50]" and dr: "digitRun 9 (drop 1 r)"
    by (simp_all add: asc_def)
  from dr show ?thesis
  proof (rule digits9)
    fix a1 a2 a3 a4 a5 a6 a7 a8 a9
    assume a: "drop 1 r = [a1, a2, a3, a4, a5, a6, a7, a8, a9]"
      and d: "is_digit a1" "is_digit a2" "is_digit a3" "is_digit a4" "is_digit a5" "is_digit a6"
        "is_digit a7" "is_digit a8" "is_digit a9"
    from split_take_drop[OF t a] s have "s = [50, a1, a2, a3, a4, a5, a6, a7, a8, a9, 45, x]" by simp
    with fam_two[OF d s(2)] d s(2) show ?thesis
      by (simp add: toUpperCase_def digit_upper upper_hyphen upper_cu_def[of 50])
  qed
qed

lemma canonical_bare9:
  assumes "canonicalFormat Bare9 s"
  shows "snd (extractOrderNumber s) = Some (toUpperCase s)"
proof -
  from canonical_split[OF assms] obtain r x where
    s: "s = r @ [45, x]" "is_digit x" and r: "familyRoot Bare9 r" by blast
  from r have dr: "digitRun 9 r" by simp
  from dr show ?thesis
  proof (rule digits9)
    fix a1 a2 a3 a4 a5 a6 a7 a8 a9
    assume a: "r = [a1, a2, a3, a4, a5, a6, a7, a8, a9]"
      and d: "is_digit a1" "is_digit a2" "is_digit a3" "is_digit a4" "is_digit a5" "is_digit a6"
        "is_digit a7" "is_digit a8" "is_digit a9"
    from a s have "s = [a1, a2, a3, a4, a5, a6, a7, a8, a9, 45, x]" by simp
    with fam_bare9[OF d s(2)] d s(2) show ?thesis
      by (simp add: toUpperCase_def digit_upper upper_hyphen)
  qed
qed

lemma canonical_bare6:
  assumes "canonicalFormat Bare6 s"
  shows "snd (extractOrderNumber s) = Some (toUpperCase s)"
proof -
  from canonical_split[OF assms] obtain r x where
    s: "s = r @ [45, x]" "is_digit x" and r: "familyRoot Bare6 r" by blast
  from r have dr: "digitRun 6 r" by simp
  from dr obtain a1 a2 a3 a4 a5 a6 where a: "r = [a1, a2, a3, a4, a5, a6]"
    "is_digit a1" "is_digit a2" "is_digit a3" "is_digit a4" "is_digit a5" "is_digit a6"
    by (rule digits6)
  from a(1) s have "s = [a1, a2, a3, a4, a5, a6, 45, x]" by simp
  with fam_bare6[OF a(2-7) s(2)] a(2-7) s(2) show ?thesis
    by (simp add: toUpperCase_def digit_upper upper_hyphen)
qed

text \<open>
  The bare 9-digit number with any chain of suffix segments: the first pattern of the
  cascade matches all of it, and the candidate is valid.
\<close>

lemma dashDigitChain_segments:
  "dashDigitChain c \<Longrightarrow> \<exists>xs. xs \<noteq> [] \<and> list_all is_digit xs \<and> c = segments xs"
proof (induction c rule: dashDigitChain.induct)
  case (1 h x others)
  show ?case
  proof (cases "others = []")
    case True
    with 1 show ?thesis by (intro exI[of _ "[x]"]) (simp add: segments_def)
  next
    case False
    with 1 obtain xs where "xs \<noteq> []" "list_all is_digit xs" "others = segments xs" by auto
    with 1 show ?thesis by (intro exI[of _ "x # xs"]) (simp add: segments_def)
  qed
qed simp_all

lemma times_digits:
  "list_all is_digit w \<Longrightarrow> length w = n \<Longrightarrow>
     matches ic (Times n d) (MState seen (w @ ahead) k) = [MState (rev w @ seen) ahead k]"
proof (induction w arbitrary: n seen)
  case Nil
  then show ?case by (simp add: matches.simps(5))
next
  case (Cons c w)
  then obtain n' where n: "n = Suc n'" "length w = n'" by (cases n) auto
  from Cons.prems(1) have c: "is_digit c" "list_all is_digit w" by simp_all
  from Cons.IH[OF c(2) n(2), of "c # seen"] c(1) n show ?case
    by (subst matches.simps(5)) simp
qed

lemma seg_step:
  "is_digit x \<Longrightarrow> matches False seg (MState seen (45 # x # others) k) = [MState (x # 45 # seen) others k]"
  by (simp add: matches.simps(5) sym_eval)

lemma seg_end: "matches False seg (MState seen [] k) = []"
  by (simp add: matches.simps(5))

lemma star_chain_hd:
  assumes step: "\<And>seen x others k. is_digit x \<Longrightarrow>
                   matches ic r (MState seen (45 # x # others) k) = [MState (x # 45 # seen) others k]"
    and stop: "\<And>seen k. matches ic r (MState seen [] k) = []"
    and "list_all is_digit xs"
  shows "\<exists>ys. matches ic (Star r) (MState seen (segments xs) k) = MState (rev (segments xs) @ seen) [] k # ys"
  using assms(3)
proof (induction xs arbitrary: seen)
  case Nil
  show ?case by (subst matches.simps(5)) (simp add: segments_def stop)
next
  case (Cons x xs)
  then have x: "is_digit x" and xs: "list_all is_digit xs" by simp_all
  from Cons.IH[OF xs, of "x # 45 # seen"] obtain ys where
    ys: "matches ic (Star r) (MState (x # 45 # seen) (segments xs) k)
           = MState (rev (segments xs) @ x # 45 # seen) [] k # ys" by blast
  have s: "segments (x # xs) = 45 # x # segments xs" by (simp add: segments_def)
  show ?case
    unfolding s
    by (subst matches.simps(5)) (simp add: step[OF x] ys)
qed

lemma plus_chain_hd:
  assumes step: "\<And>seen x others k. is_digit x \<Longrightarrow>
                   matches ic r (MState seen (45 # x # others) k) = [MState (x # 45 # seen) others k]"
    and stop: "\<And>seen k. matches ic r (MState seen [] k) = []"
    and "xs \<noteq> []" "list_all is_digit xs"
  shows "\<exists>ys. matches ic (Plus r) (MState seen (segments xs) k) = MState (rev (segments xs) @ seen) [] k # ys"
proof -
  from assms(3,4) obtain x xs' where xs: "xs = x # xs'" "is_digit x" "list_all is_digit xs'"
    by (cases xs) auto
  from star_chain_hd[OF step stop xs(3), of "x # 45 # seen" k] obtain ys where
    ys: "matches ic (Star r) (MState (x # 45 # seen) (segments xs') k)
           = MState (rev (segments xs') @ x # 45 # seen) [] k # ys" by blast
  have s: "segments (x # xs') = 45 # x # segments xs'" by (simp add: segments_def)
  show ?thesis
    unfolding xs(1) s
    by (subst matches.simps(5)) (simp add: step[OF xs(2)] ys)
qed

lemma plus_seg_hd:
  assumes "xs \<noteq> []" "list_all is_digit xs"
  shows "\<exists>ys. matches False (Plus seg) (MState seen (segments xs) k) = MState (rev (segments xs) @ seen) [] k # ys"
  using assms by (intro plus_chain_hd seg_step seg_end)

lemma dashDigits_hd:
  assumes "xs \<noteq> []" "list_all is_digit xs"
  shows "\<exists>ys. matches False dashDigits (MState seen (segments xs) k) = MState (rev (segments xs) @ seen) [] k # ys"
  unfolding dashDigits_def using assms
  by (intro plus_chain_hd) (simp_all add: sym_eval)

lemma segments_rev:
  assumes "xs \<noteq> []" "list_all is_digit xs"
  shows "\<exists>x p. rev (segments xs) = x # p \<and> is_digit x"
proof -
  from assms(1) obtain ys y where "xs = ys @ [y]" by (metis rev_exhaust)
  with assms(2) show ?thesis by (simp add: segments_def)
qed

lemma multiSegment9_match:
  assumes w: "list_all is_digit w" "length w = 9" and xs: "xs \<noteq> []" "list_all is_digit xs"
  shows "match (w @ segments xs) multiSegment9
           = Some \<lparr>whole = w @ segments xs, group1 = Some (w @ segments xs)\<rparr>"
proof -
  let ?txt = "w @ segments xs"
  let ?start = "MState [] ?txt None"
  let ?G = "Seq (Times 9 d) (Plus seg)"
  from w obtain a w' where aw: "w = a # w'" "is_digit a" by (cases w) auto
  from plus_seg_hd[OF xs, of "rev w" None] obtain ys where
    ys: "matches False (Plus seg) (MState (rev w) (segments xs) None)
           = MState (rev (segments xs) @ rev w) [] None # ys" by blast
  from segments_rev[OF xs] obtain x p where xp: "rev (segments xs) = x # p" "is_digit x" by blast
  have t: "matches False (Times 9 d) ?start = [MState (rev w) (segments xs) None]"
    using times_digits[OF w, of False "[]" "segments xs" None] by simp
  have g: "matches False ?G ?start = MState (rev (segments xs) @ rev w) [] None # ys"
    unfolding matches.simps(3) t using ys by simp
  have b: "word_before ?start \<noteq> word_after ?start"
    using aw by (simp add: word_before_def word_after_def)
  have e: "word_before (MState (rev (segments xs) @ rev w) [] (Some ?txt))
             \<noteq> word_after (MState (rev (segments xs) @ rev w) [] (Some ?txt))"
    using xp by (simp add: word_before_def word_after_def)
  have grp: "matches False (Group ?G) ?start
      = MState (rev (segments xs) @ rev w) [] (Some ?txt)
        # map (\<lambda>y. MState (pre y) (rest y) (Some (take (length ?txt - length (rest y)) ?txt))) ys"
    unfolding matches.simps(6) g by simp
  have we: "matches False WordB (MState (rev (segments xs) @ rev w) [] (Some ?txt))
      = [MState (rev (segments xs) @ rev w) [] (Some ?txt)]"
    using e by simp
  have tail: "\<exists>zs. matches False (Seq (Group ?G) WordB) ?start
      = MState (rev (segments xs) @ rev w) [] (Some ?txt) # zs"
    unfolding matches.simps(3)[of False "Group ?G" WordB] grp list.map concat.simps we by simp
  then obtain zs where zs: "matches False (Seq (Group ?G) WordB) ?start
      = MState (rev (segments xs) @ rev w) [] (Some ?txt) # zs" by blast
  have wb: "matches False WordB ?start = [?start]"
    using b by simp
  have all: "matches False (Seq WordB (Seq (Group ?G) WordB)) ?start
          = MState (rev (segments xs) @ rev w) [] (Some ?txt) # zs"
    unfolding matches.simps(3)[of False WordB "Seq (Group ?G) WordB"] wb list.map concat.simps zs by simp
  have bd: "body multiSegment9 = Seq WordB (Seq (Group ?G) WordB)"
    by (simp add: multiSegment9_def)
  have ic: "ignoreCase multiSegment9 = False"
    by (simp add: multiSegment9_def)
  show ?thesis
    unfolding match_def bd ic aw(1) append_Cons exec_from.simps(2) all[unfolded aw(1) append_Cons]
    by simp
qed


lemma nine_chain_valid:
  assumes w: "list_all is_digit w" "length w = 9" and xs: "xs \<noteq> []" "list_all is_digit xs"
  shows "isValidFormat (w @ segments xs)"
proof -
  let ?txt = "w @ segments xs"
  let ?start = "MState [] ?txt None"
  from w obtain a w' where aw: "w = a # w'" by (cases w) auto
  from dashDigits_hd[OF xs, of "rev w" None] obtain ys where
    ys: "matches False dashDigits (MState (rev w) (segments xs) None)
           = MState (rev (segments xs) @ rev w) [] None # ys" by blast
  have t: "matches False (Times 9 d) ?start = [MState (rev w) (segments xs) None]"
    using times_digits[OF w, of False "[]" "segments xs" None] by simp
  have e: "matches False Eol (MState (rev (segments xs) @ rev w) [] None) = [MState (rev (segments xs) @ rev w) [] None]"
    by simp
  have 1: "\<exists>zs. matches False (Seq dashDigits Eol) (MState (rev w) (segments xs) None)
             = MState (rev (segments xs) @ rev w) [] None # zs"
    unfolding matches.simps(3)[of False dashDigits Eol] ys list.map concat.simps e by simp
  then obtain zs where zs: "matches False (Seq dashDigits Eol) (MState (rev w) (segments xs) None)
             = MState (rev (segments xs) @ rev w) [] None # zs" by blast
  have 2: "matches False (Seq (Times 9 d) (Seq dashDigits Eol)) ?start
             = MState (rev (segments xs) @ rev w) [] None # zs"
    unfolding matches.simps(3)[of False "Times 9 d" "Seq dashDigits Eol"] t list.map concat.simps zs by simp
  have b: "matches False Bol ?start = [?start]" by simp
  have 3: "matches False (Seq Bol (Seq (Times 9 d) (Seq dashDigits Eol))) ?start
             = MState (rev (segments xs) @ rev w) [] None # zs"
    unfolding matches.simps(3)[of False Bol "Seq (Times 9 d) (Seq dashDigits Eol)"] b list.map concat.simps 2 by simp
  have "exec_from False (Seq Bol (Seq (Times 9 d) (Seq dashDigits Eol))) [] ?txt \<noteq> None"
    unfolding aw append_Cons exec_from.simps(2) 3[unfolded aw append_Cons] by simp
  then have "test \<lparr>source = asc ''^'' @ esc ''d{9}(?:-'' @ esc ''d)+$'', ignoreCase = False,
              body = seqs [Bol, Times 9 d, dashDigits, Eol]\<rparr> ?txt"
    by (simp add: test_def match_def del: matches.simps)
  then show ?thesis unfolding isValidFormat_def by blast
qed

lemma nine_chain_plain:
  assumes w: "list_all is_digit w" "length w = 9" and xs: "xs \<noteq> []" "list_all is_digit xs"
  shows "list_all (\<lambda>c. is_digit c \<or> c = 45) (w @ segments xs)"
  using w(1) xs(2) by (induction xs) (auto simp: segments_def list_all_iff)

lemma plain_no_dash: "list_all (\<lambda>c. is_digit c \<or> c = 45) s \<Longrightarrow> map dashToHyphen s = s"
  by (induction s) (auto simp: dashToHyphen_def is_digit_def)

lemma plain_candidate:
  assumes p: "list_all (\<lambda>c. is_digit c \<or> c = 45) s" and h: "s = a # s'" "is_digit a"
    and l: "rev s = x # q" "is_digit x"
  shows "fixCase (cleanUp s) = s"
proof -
  have ns: "\<And>c. is_digit c \<or> c = 45 \<Longrightarrow> \<not> is_space c"
    by (auto simp: is_space_def is_digit_def)
  have "dropWhile is_space s = s" using h by simp
  moreover have "dropWhile is_space (rev s) = rev s" using l by simp
  ultimately have t: "trim s = s" by (simp add: trim_def)
  have f: "filter (\<lambda>c. \<not> is_space c) s = s"
    using p ns by (induction s) auto
  have m: "map dashToHyphen s = s"
    using p by (rule plain_no_dash)
  have c: "cleanUp s = s"
    by (simp add: cleanUp_def t remove_spaces f normalize_def[symmetric] normalize_map m)
  have u: "toUpperCase s = s"
    using p by (induction s) (auto simp: toUpperCase_def upper_cu_def is_digit_def)
  have "fixCase s = s"
    unfolding fixCase_def u using h
    by (simp add: startsWith_def longPrefixes_def shortPrefixes_def toUpperCase_def asc_def sym_eval)
  with c show ?thesis by simp
qed

lemma nine_chain_returned:
  assumes w: "list_all is_digit w" "length w = 9" and xs: "xs \<noteq> []" "list_all is_digit xs"
  shows "snd (extractOrderNumber (w @ segments xs)) = Some (w @ segments xs)"
proof -
  let ?txt = "w @ segments xs"
  from w obtain a w' where aw: "?txt = a # (w' @ segments xs)" "is_digit a" by (cases w) auto
  from segments_rev[OF xs] obtain x p where xp: "rev ?txt = x # (p @ rev w)" "is_digit x" by auto
  note plain = nine_chain_plain[OF w xs]
  have n: "normalize ?txt = ?txt"
    unfolding normalize_map using plain by (rule plain_no_dash)
  have c: "candidate \<lparr>whole = ?txt, group1 = Some ?txt\<rparr> = ?txt"
    using plain_candidate[OF plain aw xp] aw(1) by (simp add: candidate_def)
  have v: "isValidFormat ?txt = True"
    using nine_chain_valid[OF w xs] by simp
  have "snd (cascade ?txt (multiSegment9 # ps)) = Some ?txt" for ps
    by (simp only: cascade.simps(2) multiSegment9_match[OF w xs] option.case Let_def c v if_True snd_conv)
  then have "snd (cascade ?txt patterns) = Some ?txt"
    unfolding patterns_def .
  then show ?thesis
    by (simp only: extractOrderNumber_cascade n)
qed

lemma plain_upper: "list_all (\<lambda>c. is_digit c \<or> c = 45) s \<Longrightarrow> toUpperCase s = s"
  by (induction s) (auto simp: toUpperCase_def upper_cu_def is_digit_def)

lemma chained_returned:
  assumes "chainedNineDigit s"
  shows "snd (extractOrderNumber s) = Some (toUpperCase s)"
proof -
  from assms have w: "list_all is_digit (take 9 s)" "length (take 9 s) = 9" and c: "dashDigitChain (drop 9 s)"
    by (simp_all add: chainedNineDigit_def digitRun_def)
  from dashDigitChain_segments[OF c] obtain xs where xs: "xs \<noteq> []" "list_all is_digit xs"
    "drop 9 s = segments xs" by blast
  have s: "take 9 s @ segments xs = s" using xs(3) by (metis append_take_drop_id)
  have "toUpperCase (take 9 s @ segments xs) = take 9 s @ segments xs"
    using nine_chain_plain[OF w xs(1,2)] by (rule plain_upper)
  with nine_chain_returned[OF w xs(1,2)] show ?thesis unfolding s by simp
qed

text \<open>
  C4. For every string in the canonical format of one of the six families (the family's
  root followed by one hyphen and digit, prefix letters in either case; for the bare
  9-digit family also with several such segments chained), \<open>extractOrderNumber\<close> on the
  text consisting of that string returns the string with its letters in upper case,
  that is with the prefix in its canonical case.
\<close>

theorem canonical_returned:
  assumes "canonicalFormat fam s \<or> chainedNineDigit s"
  shows "snd (extractOrderNumber s) = Some (toUpperCase s)"
proof (cases "chainedNineDigit s")
  case True
  then show ?thesis by (rule chained_returned)
next
  case False
  with assms have "canonicalFormat fam s" by simp
  then show ?thesis
    by (cases fam)
       (simp_all add: canonical_long canonical_short canonical_el canonical_two canonical_bare9 canonical_bare6)
qed

theorem canonical_returned_witness:
  "canonicalFormat LongPrefix (asc ''ejr123456-1'')
   \<and> snd (extractOrderNumber (asc ''ejr123456-1'')) = Some (asc ''EJR123456-1'')
   \<and> chainedNineDigit (asc ''000235334-1-3'')
   \<and> snd (extractOrderNumber (asc ''000235334-1-3'')) = Some (asc ''000235334-1-3'')"
proof -
  have h: "canonicalFormat LongPrefix (asc ''ejr123456-1'')"
    by (simp add: canonicalFormat_def digitRun_def dashDigit_def longPrefixes_def toUpperCase_def char_eval)
  have k: "chainedNineDigit (asc ''000235334-1-3'')"
    by (simp add: chainedNineDigit_def digitRun_def char_eval)
  have "toUpperCase (asc ''ejr123456-1'') = asc ''EJR123456-1''"
    and "toUpperCase (asc ''000235334-1-3'') = asc ''000235334-1-3''"
    by (simp_all add: toUpperCase_def char_eval)
  with canonical_returned[of LongPrefix, OF disjI1, OF h] canonical_returned[of LongPrefix, OF disjI2, OF k] h k
  show ?thesis by simp
qed

section \<open>The tracking number in the text\<close>

lemma eats_9205:
  "eats False (lit ''9205'') s w y \<Longrightarrow> w = asc ''9205''"
  by (auto simp: lit_def eats_Seq eats_Atom canon_def asc_def)

lemma eats_SeqE:
  assumes "eats ic (Seq a b) s w y"
  obtains w1 w2 m where "w = w1 @ w2" "eats ic a s w1 m" "eats ic b m w2 y"
  using assms unfolding eats_Seq by blast

lemma uspsFormat_body: "body uspsFormat = Seq WordB (Seq (Group uspsGroup) WordB)"
  by (simp add: uspsFormat_def)

lemma spaces_then_digit:
  assumes "list_all is_space w" and "list_all is_digit g" and "g \<noteq> []"
  shows "takeWhile is_space (w @ g @ r) = w \<and> dropWhile is_space (w @ g @ r) = g @ r"
proof -
  from assms(2,3) obtain c g' where g: "g = c # g'" "is_digit c" by (cases g) auto
  then have "\<not> is_space c" by simp
  with assms(1) g show ?thesis
    by (induction w) simp_all
qed

lemma digitGroup_intro:
  assumes "list_all is_space w" and "list_all is_digit g" and "length g = n" and "0 < n"
  shows "digitGroup n (w @ g @ r) = Some (w @ g, r)"
proof -
  from assms(3,4) have "g \<noteq> []" by auto
  from spaces_then_digit[OF assms(1,2) this, of r] assms(2,3) show ?thesis
    by (simp add: digitGroup_def)
qed

lemma digitGroup_elim:
  assumes "digitGroup n s = Some (g, r)"
  shows "s = g @ r" and "length (unspaced g) = n" and "list_all is_digit (unspaced g)"
proof -
  let ?t = "dropWhile is_space s"
  from assms have a: "n \<le> length ?t" "list_all is_digit (take n ?t)"
    "g = takeWhile is_space s @ take n ?t" "r = drop n ?t"
    by (auto simp: digitGroup_def Let_def split: if_splits)
  have "filter (\<lambda>c. \<not> is_space c) (takeWhile is_space s) = []"
    by (induction s) auto
  moreover have "filter (\<lambda>c. \<not> is_space c) (take n ?t) = take n ?t"
    using a(2) by (auto simp: list_all_iff intro!: filter_True)
  ultimately have u: "unspaced g = take n ?t" by (simp add: a(3))
  have "s = takeWhile is_space s @ take n ?t @ drop n ?t" by simp
  with a show "s = g @ r" by simp
  from a u show "length (unspaced g) = n" by simp
  from a u show "list_all is_digit (unspaced g)" by simp
qed

lemma group_sound:
  assumes "eats False (Seq (Star sp) (Seq (Times n d) R)) s w y" and "0 < n"
  obtains g w' m where "digitGroup n (rest s) = Some (g, rest m)" "w = g @ w'" "eats False R m w' y"
proof -
  from assms(1) obtain w1 w2 m1 where a: "w = w1 @ w2" "eats False (Star sp) s w1 m1"
    "eats False (Seq (Times n d) R) m1 w2 y" by (rule eats_SeqE)
  from a(3) obtain g w' m where b: "w2 = g @ w'" "eats False (Times n d) m1 g m" "eats False R m w' y"
    by (rule eats_SeqE)
  from eats_star_space[OF a(2)] have sp: "list_all is_space w1" by simp
  from eats_digits[OF b(2)] have dg: "list_all is_digit g" "length g = n" by auto
  from a(2) b(2) have "rest s = w1 @ g @ rest m" by (simp add: eats_def)
  with digitGroup_intro[OF sp dg assms(2), of "rest m"]
  have "digitGroup n (rest s) = Some (w1 @ g, rest m)" by simp
  moreover have "w = (w1 @ g) @ w'" using a(1) b(1) by simp
  ultimately show thesis using b(3) by (rule that)
qed

lemma last_group_sound:
  assumes "eats False (Seq (Star sp) (Times n d)) s w y" and "0 < n"
  shows "digitGroup n (rest s) = Some (w, rest y)"
proof -
  from assms(1) obtain w1 g m1 where a: "w = w1 @ g" "eats False (Star sp) s w1 m1"
    "eats False (Times n d) m1 g y" by (rule eats_SeqE)
  from eats_star_space[OF a(2)] have sp: "list_all is_space w1" by simp
  from eats_digits[OF a(3)] have dg: "list_all is_digit g" "length g = n" by auto
  from a(2,3) have "rest s = w1 @ g @ rest y" by (simp add: eats_def)
  with digitGroup_intro[OF sp dg assms(2), of "rest y"] a(1) show ?thesis by simp
qed

lemma uspsGroup_sound:
  assumes "eats False uspsGroup s w y"
  shows "uspsAt (rest s) = Some (w, rest y)"
proof -
  from assms obtain w0 r0 m0 where
    a: "w = w0 @ r0" "eats False (lit ''9205'') s w0 m0"
    and r0: "eats False (Seq (Star sp) (Seq (Times 4 d) (Seq (Star sp) (Seq (Times 4 d) (Seq (Star sp)
               (Seq (Times 4 d) (Seq (Star sp) (Seq (Times 4 d) (Seq (Star sp) (Times 2 d))))))))))
             m0 r0 y"
    unfolding uspsGroup_def seqs.simps by (rule eats_SeqE)
  from r0 obtain g1 r1 m1 where g1: "digitGroup 4 (rest m0) = Some (g1, rest m1)" "r0 = g1 @ r1"
    and r1: "eats False (Seq (Star sp) (Seq (Times 4 d) (Seq (Star sp) (Seq (Times 4 d) (Seq (Star sp)
               (Seq (Times 4 d) (Seq (Star sp) (Times 2 d)))))))) m1 r1 y"
    by (rule group_sound) simp
  from r1 obtain g2 r2 m2 where g2: "digitGroup 4 (rest m1) = Some (g2, rest m2)" "r1 = g2 @ r2"
    and r2: "eats False (Seq (Star sp) (Seq (Times 4 d) (Seq (Star sp) (Seq (Times 4 d) (Seq (Star sp)
               (Times 2 d)))))) m2 r2 y"
    by (rule group_sound) simp
  from r2 obtain g3 r3 m3 where g3: "digitGroup 4 (rest m2) = Some (g3, rest m3)" "r2 = g3 @ r3"
    and r3: "eats False (Seq (Star sp) (Seq (Times 4 d) (Seq (Star sp) (Times 2 d)))) m3 r3 y"
    by (rule group_sound) simp
  from r3 obtain g4 r4 m4 where g4: "digitGroup 4 (rest m3) = Some (g4, rest m4)" "r3 = g4 @ r4"
    and r4: "eats False (Seq (Star sp) (Times 2 d)) m4 r4 y"
    by (rule group_sound) simp
  from last_group_sound[OF r4] have g5: "digitGroup 2 (rest m4) = Some (r4, rest y)" by simp
  have w0: "w0 = asc ''9205''" using eats_9205[OF a(2)] .
  from a(2) w0 have s: "rest s = asc ''9205'' @ rest m0" by (simp add: eats_def)
  have t: "take 4 (rest s) = asc ''9205''" "drop 4 (rest s) = rest m0"
    unfolding s by (simp_all add: asc_def)
  show ?thesis
    unfolding uspsAt_def t using g1 g2 g3 g4 g5 a(1) w0 by simp
qed

lemma word_before_rev: "g \<noteq> [] \<Longrightarrow> word_before (MState (rev g @ seen) r k) = is_word (last g)"
  by (cases g rule: rev_cases) (simp_all add: word_before_def)

lemma take_last:
  assumes "n \<le> length t" and "0 < n" and "list_all P (take n t)"
  shows "take n t \<noteq> [] \<and> P (last (take n t))"
proof -
  from assms(1,2) have "length (take n t) \<noteq> 0" by simp
  then have ne: "take n t \<noteq> []" by (simp only: length_0_conv not_False_eq_True)
  then have "last (take n t) \<in> set (take n t)" by (rule last_in_set)
  with assms(3) ne show ?thesis by (simp add: list_all_iff)
qed

lemma digitGroup_last:
  assumes "digitGroup n s = Some (g, r)" and "0 < n"
  shows "g \<noteq> [] \<and> is_digit (last g)"
proof -
  let ?t = "dropWhile is_space s"
  from assms(1) have a: "n \<le> length ?t" "list_all is_digit (take n ?t)"
    "g = takeWhile is_space s @ take n ?t"
    by (auto simp: digitGroup_def Let_def split: if_splits)
  from take_last[OF a(1) assms(2) a(2)] a(3) show ?thesis by simp
qed

lemma uspsAt_groups:
  assumes "uspsAt s = Some (g, r)"
  obtains g1 r1 g2 r2 g3 r3 g4 r4 g5 where
    "take 4 s = asc ''9205''"
    "digitGroup 4 (drop 4 s) = Some (g1, r1)" "digitGroup 4 r1 = Some (g2, r2)"
    "digitGroup 4 r2 = Some (g3, r3)" "digitGroup 4 r3 = Some (g4, r4)" "digitGroup 2 r4 = Some (g5, r)"
    "g = asc ''9205'' @ g1 @ g2 @ g3 @ g4 @ g5"
  using assms unfolding uspsAt_def
  by (auto split: if_splits option.splits prod.splits)

lemma uspsAt_shape:
  assumes "uspsAt s = Some (g, r)"
  shows "s = g @ r \<and> g \<noteq> [] \<and> hd g = 57 \<and> is_digit (last g)
         \<and> length (unspaced g) = 22 \<and> list_all is_digit (unspaced g) \<and> take 4 (unspaced g) = asc ''9205''"
proof -
  from assms obtain g1 r1 g2 r2 g3 r3 g4 r4 g5 where
    a: "take 4 s = asc ''9205''"
    and g1: "digitGroup 4 (drop 4 s) = Some (g1, r1)" and g2: "digitGroup 4 r1 = Some (g2, r2)"
    and g3: "digitGroup 4 r2 = Some (g3, r3)" and g4: "digitGroup 4 r3 = Some (g4, r4)"
    and g5: "digitGroup 2 r4 = Some (g5, r)"
    and g: "g = asc ''9205'' @ g1 @ g2 @ g3 @ g4 @ g5"
    by (rule uspsAt_groups)
  note e1 = digitGroup_elim[OF g1] and e2 = digitGroup_elim[OF g2] and e3 = digitGroup_elim[OF g3]
    and e4 = digitGroup_elim[OF g4] and e5 = digitGroup_elim[OF g5]
  have "s = take 4 s @ drop 4 s" by simp
  also have "\<dots> = asc ''9205'' @ g1 @ r1" using a e1(1) by simp
  also have "\<dots> = asc ''9205'' @ g1 @ g2 @ g3 @ g4 @ g5 @ r"
    using e2(1) e3(1) e4(1) e5(1) by simp
  finally have s: "s = g @ r" by (simp add: g)
  from digitGroup_last[OF g5] have l: "g5 \<noteq> []" "is_digit (last g5)" by simp_all
  have u: "unspaced g = asc ''9205'' @ unspaced g1 @ unspaced g2 @ unspaced g3 @ unspaced g4 @ unspaced g5"
    unfolding g by (simp add: asc_def is_space_def)
  have len: "length (unspaced g) = 22"
    unfolding u using e1(2) e2(2) e3(2) e4(2) e5(2) by (simp add: asc_def)
  have dig: "list_all is_digit (unspaced g)"
    unfolding u using e1(3) e2(3) e3(3) e4(3) e5(3) by (simp add: asc_def is_digit_def)
  have hd4: "take 4 (unspaced g) = asc ''9205''"
    unfolding u by (simp add: asc_def)
  from l have "last g = last g5" unfolding g by simp
  with l s len dig hd4 show ?thesis by (simp add: g asc_def)
qed

lemma here_sound:
  assumes "y \<in> set (matches False (body uspsFormat) (MState seen ahead None))"
  shows "\<exists>g. uspsHere seen ahead = Some g \<and> cap y = Some g"
proof -
  let ?s = "MState seen ahead None"
  from assms have "y \<in> set (matches False (Seq WordB (Seq (Group uspsGroup) WordB)) ?s)"
    by (simp only: uspsFormat_body)
  from matches_eats[OF this] obtain w where
    "eats False (Seq WordB (Seq (Group uspsGroup) WordB)) ?s w y" by blast
  then obtain w1 w2 m1 where e1: "eats False WordB ?s w1 m1"
    and e2: "eats False (Seq (Group uspsGroup) WordB) m1 w2 y" by (rule eats_SeqE)
  from e2 obtain w3 w4 m2 where e3: "eats False (Group uspsGroup) m1 w3 m2"
    and e4: "eats False WordB m2 w4 y" by (rule eats_SeqE)
  from e1 have m1: "m1 = ?s" and b1: "word_before ?s \<noteq> word_after ?s" by (simp_all add: eats_WordB)
  from e3 obtain m3 where e5: "eats False uspsGroup m1 w3 m3" and m2: "m2 = MState (pre m3) (rest m3) (Some w3)"
    by (auto simp: eats_Group)
  from e4 have y: "y = m2" and b2: "word_before m2 \<noteq> word_after m2" by (simp_all add: eats_WordB)
  from uspsGroup_sound[OF e5] m1 have at: "uspsAt ahead = Some (w3, rest m3)" by simp
  note sh = uspsAt_shape[OF at]
  from sh obtain t where t: "w3 = 57 # t" by (cases w3) auto
  from sh t have "word_after ?s" by (simp add: word_after_def is_word_def)
  with b1 have "\<not> word_before ?s" by simp
  then have edge1: "wordEdge seen" by (simp add: word_before_def wordEdge_def split: list.splits)
  from e5 m1 have p: "pre m3 = rev w3 @ seen" by (simp add: eats_def)
  from sh p m2 have "word_before m2" by (simp add: word_before_rev)
  with b2 have "\<not> word_after m2" by simp
  with m2 have edge2: "wordEdge (rest m3)" by (simp add: word_after_def wordEdge_def split: list.splits)
  from at edge1 edge2 have "uspsHere seen ahead = Some w3" by (simp add: uspsHere_def)
  moreover from y m2 have "cap y = Some w3" by simp
  ultimately show ?thesis by blast
qed

lemma lit_9205_eats:
  "eats False (lit ''9205'') (MState seen (asc ''9205'' @ t) k) (asc ''9205'')
      (MState (rev (asc ''9205'') @ seen) t k)"
  by (simp add: lit_def eats_def asc_def canon_def)

lemma space_digits_eats:
  assumes "digitGroup n ahead = Some (g, r)"
  shows "eats ic (Seq (Star sp) (Times n d)) (MState seen ahead k) g (MState (rev g @ seen) r k)"
proof -
  let ?w = "takeWhile is_space ahead" and ?t = "dropWhile is_space ahead"
  from assms have a: "n \<le> length ?t" "list_all is_digit (take n ?t)" "g = ?w @ take n ?t" "r = drop n ?t"
    by (auto simp: digitGroup_def Let_def split: if_splits)
  from star_space_hd[of ic seen ahead k]
  have "MState (rev ?w @ seen) ?t k \<in> set (matches ic (Star sp) (MState seen ahead k))"
    by (auto simp del: matches.simps)
  then have 1: "eats ic (Star sp) (MState seen ahead k) ?w (MState (rev ?w @ seen) ?t k)"
    by (simp add: eats_def)
  have "MState (rev (take n ?t) @ rev ?w @ seen) (drop n ?t) k
          \<in> set (matches ic (Rep d n (Some n)) (MState (rev ?w @ seen) (take n ?t @ drop n ?t) k))"
    using a(1,2) by (intro digits_eaten) simp_all
  then have 2: "eats ic (Times n d) (MState (rev ?w @ seen) ?t k) (take n ?t)
                  (MState (rev (take n ?t) @ rev ?w @ seen) (drop n ?t) k)"
    by (simp add: eats_def)
  from 1 2 have "eats ic (Seq (Star sp) (Times n d)) (MState seen ahead k) (?w @ take n ?t)
                   (MState (rev (take n ?t) @ rev ?w @ seen) (drop n ?t) k)"
    unfolding eats_Seq[of ic "Star sp"] by blast
  with a show ?thesis by simp
qed

lemma group_complete:
  assumes "digitGroup n ahead = Some (g, r)"
    and "eats ic R (MState (rev g @ seen) r k) w' y"
  shows "eats ic (Seq (Star sp) (Seq (Times n d) R)) (MState seen ahead k) (g @ w') y"
proof -
  from space_digits_eats[OF assms(1), of ic seen k] obtain w1 w2 m where
    a: "g = w1 @ w2" "eats ic (Star sp) (MState seen ahead k) w1 m"
       "eats ic (Times n d) m w2 (MState (rev g @ seen) r k)"
    by (rule eats_SeqE)
  from a(3) assms(2) have "eats ic (Seq (Times n d) R) m (w2 @ w') y"
    unfolding eats_Seq[of ic "Times n d"] by blast
  with a(2) have "eats ic (Seq (Star sp) (Seq (Times n d) R)) (MState seen ahead k) (w1 @ w2 @ w') y"
    unfolding eats_Seq[of ic "Star sp"] by blast
  with a(1) show ?thesis by simp
qed

lemma uspsGroup_complete:
  assumes "uspsAt ahead = Some (g, r)"
  shows "eats False uspsGroup (MState seen ahead k) g (MState (rev g @ seen) r k)"
proof -
  from assms obtain g1 r1 g2 r2 g3 r3 g4 r4 g5 where
    a: "take 4 ahead = asc ''9205''"
    and g1: "digitGroup 4 (drop 4 ahead) = Some (g1, r1)" and g2: "digitGroup 4 r1 = Some (g2, r2)"
    and g3: "digitGroup 4 r2 = Some (g3, r3)" and g4: "digitGroup 4 r3 = Some (g4, r4)"
    and g5: "digitGroup 2 r4 = Some (g5, r)"
    and g: "g = asc ''9205'' @ g1 @ g2 @ g3 @ g4 @ g5"
    by (rule uspsAt_groups)
  let ?p = "rev (asc ''9205'') @ seen"
  have s: "ahead = asc ''9205'' @ drop 4 ahead"
    using a append_take_drop_id[of 4 ahead] by simp
  have e5: "eats False (Seq (Star sp) (Times 2 d)) (MState (rev g4 @ rev g3 @ rev g2 @ rev g1 @ ?p) r4 k) g5
              (MState (rev g5 @ rev g4 @ rev g3 @ rev g2 @ rev g1 @ ?p) r k)"
    by (rule space_digits_eats[OF g5])
  have e4: "eats False (Seq (Star sp) (Seq (Times 4 d) (Seq (Star sp) (Times 2 d))))
              (MState (rev g3 @ rev g2 @ rev g1 @ ?p) r3 k) (g4 @ g5)
              (MState (rev g5 @ rev g4 @ rev g3 @ rev g2 @ rev g1 @ ?p) r k)"
    by (rule group_complete[OF g4 e5])
  have e3: "eats False (Seq (Star sp) (Seq (Times 4 d) (Seq (Star sp) (Seq (Times 4 d) (Seq (Star sp) (Times 2 d))))))
              (MState (rev g2 @ rev g1 @ ?p) r2 k) (g3 @ g4 @ g5)
              (MState (rev g5 @ rev g4 @ rev g3 @ rev g2 @ rev g1 @ ?p) r k)"
    by (rule group_complete[OF g3 e4])
  have e2: "eats False (Seq (Star sp) (Seq (Times 4 d) (Seq (Star sp) (Seq (Times 4 d) (Seq (Star sp)
               (Seq (Times 4 d) (Seq (Star sp) (Times 2 d))))))))
              (MState (rev g1 @ ?p) r1 k) (g2 @ g3 @ g4 @ g5)
              (MState (rev g5 @ rev g4 @ rev g3 @ rev g2 @ rev g1 @ ?p) r k)"
    by (rule group_complete[OF g2 e3])
  have e1: "eats False (Seq (Star sp) (Seq (Times 4 d) (Seq (Star sp) (Seq (Times 4 d) (Seq (Star sp)
               (Seq (Times 4 d) (Seq (Star sp) (Seq (Times 4 d) (Seq (Star sp) (Times 2 d))))))))))
              (MState ?p (drop 4 ahead) k) (g1 @ g2 @ g3 @ g4 @ g5)
              (MState (rev g5 @ rev g4 @ rev g3 @ rev g2 @ rev g1 @ ?p) r k)"
    by (rule group_complete[OF g1 e2])
  have e0: "eats False (lit ''9205'') (MState seen (asc ''9205'' @ drop 4 ahead) k) (asc ''9205'')
              (MState ?p (drop 4 ahead) k)"
    by (rule lit_9205_eats)
  from e0 e1 have "eats False uspsGroup (MState seen (asc ''9205'' @ drop 4 ahead) k)
       (asc ''9205'' @ g1 @ g2 @ g3 @ g4 @ g5)
       (MState (rev g5 @ rev g4 @ rev g3 @ rev g2 @ rev g1 @ ?p) r k)"
    unfolding uspsGroup_def seqs.simps eats_Seq[of False "lit ''9205''"] by blast
  with s g show ?thesis by simp
qed

lemma here_complete:
  assumes "uspsHere seen ahead = Some g"
  shows "matches False (body uspsFormat) (MState seen ahead None) \<noteq> []"
proof -
  let ?s = "MState seen ahead None"
  from assms obtain r where at: "uspsAt ahead = Some (g, r)" and edge: "wordEdge seen" "wordEdge r"
    by (auto simp: uspsHere_def split: option.splits prod.splits if_splits)
  note sh = uspsAt_shape[OF at]
  from sh obtain t where t: "g = 57 # t" by (cases g) auto
  from sh t have "word_after ?s" by (simp add: word_after_def is_word_def)
  moreover from edge(1) have "\<not> word_before ?s"
    by (simp add: word_before_def wordEdge_def split: list.splits)
  ultimately have 1: "eats False WordB ?s [] ?s" by (simp add: eats_WordB)
  let ?m = "MState (rev g @ seen) r (Some g)"
  from uspsGroup_complete[OF at, of seen None]
  have 2: "eats False (Group uspsGroup) ?s g ?m"
    unfolding eats_Group by (intro exI[of _ "MState (rev g @ seen) r None"]) simp
  from sh have "word_before ?m" by (simp add: word_before_rev)
  moreover from edge(2) have "\<not> word_after ?m"
    by (simp add: word_after_def wordEdge_def split: list.splits)
  ultimately have 3: "eats False WordB ?m [] ?m" by (simp add: eats_WordB)
  from 2 3 have "eats False (Seq (Group uspsGroup) WordB) ?s (g @ []) ?m"
    unfolding eats_Seq[of False "Group uspsGroup"] by blast
  with 1 have "eats False (Seq WordB (Seq (Group uspsGroup) WordB)) ?s ([] @ g @ []) ?m"
    unfolding eats_Seq[of False WordB] by blast
  then have "?m \<in> set (matches False (body uspsFormat) ?s)"
    by (simp only: uspsFormat_body eats_def)
  then show ?thesis by auto
qed

lemma here_matches:
  "matches False (body uspsFormat) (MState seen ahead None) =
     (case uspsHere seen ahead of
        None \<Rightarrow> []
      | Some g \<Rightarrow> matches False (body uspsFormat) (MState seen ahead None))
   \<and> (\<forall>y ys. matches False (body uspsFormat) (MState seen ahead None) = y # ys \<longrightarrow> uspsHere seen ahead = cap y)"
proof -
  have "uspsHere seen ahead = cap y" if "matches False (body uspsFormat) (MState seen ahead None) = y # ys" for y ys
  proof -
    from that have "y \<in> set (matches False (body uspsFormat) (MState seen ahead None))"
      by (simp del: matches.simps)
    from here_sound[OF this] show ?thesis by auto
  qed
  moreover have "matches False (body uspsFormat) (MState seen ahead None) = []" if "uspsHere seen ahead = None"
  proof (rule ccontr)
    assume "matches False (body uspsFormat) (MState seen ahead None) \<noteq> []"
    then obtain y where "y \<in> set (matches False (body uspsFormat) (MState seen ahead None))"
      by (cases "matches False (body uspsFormat) (MState seen ahead None)") (auto simp del: matches.simps)
    from here_sound[OF this] that show False by auto
  qed
  ultimately show ?thesis by (auto split: option.splits simp del: matches.simps)
qed

lemma exec_search:
  "map_option group1 (exec_from False (body uspsFormat) seen ahead) = map_option Some (searchUsps seen ahead)"
proof (induction ahead arbitrary: seen)
  case Nil
  have "uspsHere seen [] = None" by (simp add: uspsHere_def uspsAt_def asc_def)
  with here_matches[of seen "[]"] have "matches False (body uspsFormat) (MState seen [] None) = []"
    by (simp del: matches.simps)
  then show ?case by (simp del: matches.simps)
next
  case (Cons c cs)
  show ?case
  proof (cases "matches False (body uspsFormat) (MState seen (c # cs) None)")
    case Nil
    with here_complete[of seen "c # cs"] have "uspsHere seen (c # cs) = None"
      by (cases "uspsHere seen (c # cs)") auto
    with Nil Cons.IH[of "c # seen"] show ?thesis by (simp del: matches.simps)
  next
    case (Cons y ys)
    with here_matches[of seen "c # cs"] have "uspsHere seen (c # cs) = cap y" by blast
    moreover from Cons have "y \<in> set (matches False (body uspsFormat) (MState seen (c # cs) None))"
      by (simp del: matches.simps)
    from here_sound[OF this] obtain g where "uspsHere seen (c # cs) = Some g" "cap y = Some g" by blast
    ultimately show ?thesis using Cons by (simp del: matches.simps)
  qed
qed

lemma uspsHere_Nil: "uspsHere seen [] = None"
  by (simp add: uspsHere_def uspsAt_def asc_def)

lemma uspsHere_hd: "c \<noteq> 57 \<Longrightarrow> uspsHere seen (c # cs) = None"
  by (simp add: uspsHere_def uspsAt_def asc_def take_Cons')

lemma uspsHere_shape:
  assumes "uspsHere seen ahead = Some g"
  shows "g \<noteq> [] \<and> length (unspaced g) = 22 \<and> list_all is_digit (unspaced g) \<and> take 4 (unspaced g) = asc ''9205''"
proof -
  from assms obtain r where "uspsAt ahead = Some (g, r)"
    by (auto simp: uspsHere_def split: option.splits prod.splits if_splits)
  from uspsAt_shape[OF this] show ?thesis by simp
qed

lemma search_here:
  "searchUsps seen ahead = Some g \<Longrightarrow> \<exists>u v. ahead = u @ v \<and> uspsHere (rev u @ seen) v = Some g"
proof (induction ahead arbitrary: seen)
  case Nil
  then show ?case by simp
next
  case (Cons c cs)
  show ?case
  proof (cases "uspsHere seen (c # cs)")
    case None
    with Cons.prems have "searchUsps (c # seen) cs = Some g" by simp
    from Cons.IH[OF this] obtain u v where "cs = u @ v" "uspsHere (rev u @ c # seen) v = Some g" by blast
    then have "c # cs = (c # u) @ v \<and> uspsHere (rev (c # u) @ seen) v = Some g" by simp
    then show ?thesis by blast
  next
    case (Some g')
    with Cons.prems have "c # cs = [] @ (c # cs) \<and> uspsHere (rev [] @ seen) (c # cs) = Some g" by simp
    then show ?thesis by blast
  qed
qed

lemma search_found:
  "uspsHere (rev u @ seen) v = Some g \<Longrightarrow>
     searchUsps seen (u @ v) \<noteq> None \<and> (57 \<notin> set u \<longrightarrow> searchUsps seen (u @ v) = Some g)"
proof (induction u arbitrary: seen)
  case Nil
  then show ?case by (cases v) (simp_all add: uspsHere_Nil)
next
  case (Cons c u)
  from Cons.prems have "uspsHere (rev u @ c # seen) v = Some g" by simp
  from Cons.IH[OF this] show ?case
    by (cases "uspsHere seen (c # u @ v)") (auto simp: uspsHere_hd)
qed

lemma search_shape:
  assumes "searchUsps seen ahead = Some g"
  shows "g \<noteq> [] \<and> length (unspaced g) = 22 \<and> list_all is_digit (unspaced g) \<and> take 4 (unspaced g) = asc ''9205''"
proof -
  from search_here[OF assms] obtain u v where "uspsHere (rev u @ seen) v = Some g" by blast
  then show ?thesis by (rule uspsHere_shape)
qed

lemma findInText_search:
  "findInText pdfText trackingPatterns = map_option unspaced (searchUsps [] pdfText)"
proof (cases "exec_from False (body uspsFormat) [] pdfText")
  case None
  with exec_search[of "[]" pdfText] have "searchUsps [] pdfText = None" by simp
  moreover from None have "match pdfText uspsFormat = None" by (simp add: match_def uspsFormat_def)
  ultimately show ?thesis by (simp add: trackingPatterns_def)
next
  case (Some m)
  with exec_search[of "[]" pdfText] obtain g where g: "searchUsps [] pdfText = Some g" "group1 m = Some g"
    by (cases "searchUsps [] pdfText") auto
  from search_shape[OF g(1)] have "g \<noteq> []" by simp
  moreover from Some have "match pdfText uspsFormat = Some m" by (simp add: match_def uspsFormat_def)
  ultimately show ?thesis using g by (simp add: trackingPatterns_def remove_spaces)
qed

lemma shape_here:
  assumes "list_all is_space (w1 @ w2 @ w3 @ w4 @ w5)" and "list_all is_digit (a @ b @ c @ e @ f)"
    and "length a = 4" "length b = 4" "length c = 4" "length e = 4" "length f = 2"
    and "wordEdge seen" "wordEdge v"
  shows "uspsHere seen (asc ''9205'' @ w1 @ a @ w2 @ b @ w3 @ c @ w4 @ e @ w5 @ f @ v)
           = Some (asc ''9205'' @ w1 @ a @ w2 @ b @ w3 @ c @ w4 @ e @ w5 @ f)"
proof -
  from assms(1) have w: "list_all is_space w1" "list_all is_space w2" "list_all is_space w3"
    "list_all is_space w4" "list_all is_space w5" by simp_all
  from assms(2) have dg: "list_all is_digit a" "list_all is_digit b" "list_all is_digit c"
    "list_all is_digit e" "list_all is_digit f" by simp_all
  have g1: "digitGroup 4 (w1 @ a @ w2 @ b @ w3 @ c @ w4 @ e @ w5 @ f @ v) = Some (w1 @ a, w2 @ b @ w3 @ c @ w4 @ e @ w5 @ f @ v)"
    by (rule digitGroup_intro[OF w(1) dg(1) assms(3)]) simp
  have g2: "digitGroup 4 (w2 @ b @ w3 @ c @ w4 @ e @ w5 @ f @ v) = Some (w2 @ b, w3 @ c @ w4 @ e @ w5 @ f @ v)"
    by (rule digitGroup_intro[OF w(2) dg(2) assms(4)]) simp
  have g3: "digitGroup 4 (w3 @ c @ w4 @ e @ w5 @ f @ v) = Some (w3 @ c, w4 @ e @ w5 @ f @ v)"
    by (rule digitGroup_intro[OF w(3) dg(3) assms(5)]) simp
  have g4: "digitGroup 4 (w4 @ e @ w5 @ f @ v) = Some (w4 @ e, w5 @ f @ v)"
    by (rule digitGroup_intro[OF w(4) dg(4) assms(6)]) simp
  have g5: "digitGroup 2 (w5 @ f @ v) = Some (w5 @ f, v)"
    by (rule digitGroup_intro[OF w(5) dg(5) assms(7)]) simp
  have t: "take 4 (asc ''9205'' @ x) = asc ''9205''" "drop 4 (asc ''9205'' @ x) = x" for x
    by (simp_all add: asc_def)
  show ?thesis
    unfolding uspsHere_def uspsAt_def t using g1 g2 g3 g4 g5 assms(8,9) by simp
qed

lemma unspaced_shape:
  assumes "list_all is_space (w1 @ w2 @ w3 @ w4 @ w5)" and "list_all is_digit (a @ b @ c @ e @ f)"
  shows "unspaced (asc ''9205'' @ w1 @ a @ w2 @ b @ w3 @ c @ w4 @ e @ w5 @ f) = asc ''9205'' @ a @ b @ c @ e @ f"
proof -
  have s: "unspaced w = []" if "list_all is_space w" for w
    using that by (induction w) auto
  have k: "unspaced x = x" if "list_all is_digit x" for x
    using that by (induction x) auto
  from assms show ?thesis by (simp add: s k) (simp add: asc_def is_space_def)
qed

text \<open>
  C3, as the code has it. The pattern asks for \<open>9205\<close>, four groups of four digits and a
  last group of two digits, 22 digits in all, the groups separated by optional white
  space and the whole between word boundaries. What \<open>extractTrackingNumber\<close> finds in the
  text is what the scanner \<open>searchUsps\<close> finds, at the leftmost position where the format
  stands, with the white space removed: a string of 22 digits that starts with \<open>9205\<close>,
  returned whatever the file name is. Every text in which the format stands somewhere
  between word boundaries gives such a result, and the result is that occurrence when no
  \<open>9\<close> comes before it.
\<close>

theorem tracking_in_text:
  "findInText pdfText trackingPatterns = map_option (filter (\<lambda>c. \<not> is_space c)) (searchUsps [] pdfText)
   \<and> (searchUsps [] pdfText = Some g \<longrightarrow>
        extractTrackingNumber fileName pdfText
          = ([(INFO, asc ''Attempting to extract tracking number''),
              (INFO, asc ''Found tracking number in PDF: '' @ filter (\<lambda>c. \<not> is_space c) g)],
             Some (filter (\<lambda>c. \<not> is_space c) g))
        \<and> length (filter (\<lambda>c. \<not> is_space c) g) = 22
        \<and> list_all is_digit (filter (\<lambda>c. \<not> is_space c) g)
        \<and> take 4 (filter (\<lambda>c. \<not> is_space c) g) = asc ''9205'')
   \<and> (pdfText = u @ asc ''9205'' @ w1 @ a @ w2 @ b @ w3 @ c @ w4 @ e @ w5 @ f @ v
        \<and> list_all is_space (w1 @ w2 @ w3 @ w4 @ w5)
        \<and> list_all is_digit (a @ b @ c @ e @ f)
        \<and> length a = 4 \<and> length b = 4 \<and> length c = 4 \<and> length e = 4 \<and> length f = 2
        \<and> wordEdge (rev u) \<and> wordEdge v \<longrightarrow>
          (\<exists>t. snd (extractTrackingNumber fileName pdfText) = Some t
                \<and> length t = 22 \<and> list_all is_digit t \<and> take 4 t = asc ''9205'')
          \<and> (57 \<notin> set u \<longrightarrow>
                snd (extractTrackingNumber fileName pdfText) = Some (asc ''9205'' @ a @ b @ c @ e @ f)))"
proof (intro conjI impI)
  show r: "findInText pdfText trackingPatterns = map_option unspaced (searchUsps [] pdfText)"
    by (rule findInText_search)
  {
    assume g: "searchUsps [] pdfText = Some g"
    with r show "extractTrackingNumber fileName pdfText
          = ([(INFO, asc ''Attempting to extract tracking number''),
              (INFO, asc ''Found tracking number in PDF: '' @ unspaced g)], Some (unspaced g))"
      by (simp add: extractTrackingNumber_def)
    from search_shape[OF g] show "length (unspaced g) = 22" "list_all is_digit (unspaced g)"
      "take 4 (unspaced g) = asc ''9205''" by simp_all
  }
  {
    assume h: "pdfText = u @ asc ''9205'' @ w1 @ a @ w2 @ b @ w3 @ c @ w4 @ e @ w5 @ f @ v
        \<and> list_all is_space (w1 @ w2 @ w3 @ w4 @ w5)
        \<and> list_all is_digit (a @ b @ c @ e @ f)
        \<and> length a = 4 \<and> length b = 4 \<and> length c = 4 \<and> length e = 4 \<and> length f = 2
        \<and> wordEdge (rev u) \<and> wordEdge v"
    let ?g = "asc ''9205'' @ w1 @ a @ w2 @ b @ w3 @ c @ w4 @ e @ w5 @ f"
    from h have here: "uspsHere (rev u @ []) (?g @ v) = Some ?g"
      using shape_here[of w1 w2 w3 w4 w5 a b c e f "rev u" v] by simp
    from h have whole_text: "pdfText = u @ ?g @ v" by simp
    from search_found[OF here] whole_text have f1: "searchUsps [] pdfText \<noteq> None"
      and f2: "57 \<notin> set u \<longrightarrow> searchUsps [] pdfText = Some ?g" by simp_all
    from f1 obtain g' where g': "searchUsps [] pdfText = Some g'" by blast
    with r have "snd (extractTrackingNumber fileName pdfText) = Some (unspaced g')"
      by (simp add: extractTrackingNumber_def)
    with search_shape[OF g']
    show "\<exists>t. snd (extractTrackingNumber fileName pdfText) = Some t
                \<and> length t = 22 \<and> list_all is_digit t \<and> take 4 t = asc ''9205''" by simp
    {
      assume "57 \<notin> set u"
      with f2 have "searchUsps [] pdfText = Some ?g" by simp
      with r have "snd (extractTrackingNumber fileName pdfText) = Some (unspaced ?g)"
        by (simp add: extractTrackingNumber_def)
      also from h have "unspaced ?g = asc ''9205'' @ a @ b @ c @ e @ f"
        using unspaced_shape[of w1 w2 w3 w4 w5 a b c e f] by simp
      finally show "snd (extractTrackingNumber fileName pdfText) = Some (asc ''9205'' @ a @ b @ c @ e @ f)" .
    }
  }
qed

theorem tracking_in_text_witness:
  "searchUsps [] (asc ''USPS TRACKING # 9205 1234 5678 9012 3456 78 '') = Some (asc ''9205 1234 5678 9012 3456 78'')
   \<and> extractTrackingNumber (asc ''12345678901234567890.pdf'') (asc ''USPS TRACKING # 9205 1234 5678 9012 3456 78 '')
       = ([(INFO, asc ''Attempting to extract tracking number''),
           (INFO, asc ''Found tracking number in PDF: 9205123456789012345678'')],
          Some (asc ''9205123456789012345678''))
   \<and> wordEdge (rev (asc ''No. '')) \<and> wordEdge (asc '', USPS'')
   \<and> snd (extractTrackingNumber (asc ''label.pdf'') (asc ''No. 9205 0000 1111  22223333 44, USPS''))
       = Some (asc ''9205000011112222333344'')"
proof -
  have a: "searchUsps [] (asc ''USPS TRACKING # 9205 1234 5678 9012 3456 78 '') = Some (asc ''9205 1234 5678 9012 3456 78'')"
    by (simp add: uspsHere_def uspsAt_def digitGroup_def wordEdge_def char_eval)
  have b: "wordEdge (rev (asc ''No. ''))" "wordEdge (asc '', USPS'')"
    by (simp_all add: wordEdge_def char_eval)
  have c: "asc ''No. 9205 0000 1111  22223333 44, USPS''
         = asc ''No. '' @ asc ''9205'' @ asc '' '' @ asc ''0000'' @ asc '' '' @ asc ''1111'' @ asc ''  '' @ asc ''2222''
           @ [] @ asc ''3333'' @ asc '' '' @ asc ''44'' @ asc '', USPS''"
    by (simp add: asc_def)
  from tracking_in_text[of "asc ''USPS TRACKING # 9205 1234 5678 9012 3456 78 ''" "asc ''9205 1234 5678 9012 3456 78''"
      "asc ''12345678901234567890.pdf''" "[]" "[]" "[]" "[]" "[]" "[]" "[]" "[]" "[]" "[]" "[]" "[]"]
    tracking_in_text[of "asc ''No. 9205 0000 1111  22223333 44, USPS''" "[]" "asc ''label.pdf''"
      "asc ''No. ''" "asc '' ''" "asc ''0000''" "asc '' ''" "asc ''1111''" "asc ''  ''" "asc ''2222''"
      "[]" "asc ''3333''" "asc '' ''" "asc ''44''" "asc '', USPS''"]
    a b c
  show ?thesis by (simp add: char_eval)
qed

text \<open>
  C3, as stated, counts 20 digits. A text with \<open>9205\<close> and four groups of four digits
  only, with or without spaces, has no match; with a file name that is no number,
  nothing is found.
\<close>

theorem twenty_digits_not_found:
  "snd (extractTrackingNumber (asc ''label.pdf'') (asc ''9205 1234 5678 9012 3456'')) = None
   \<and> snd (extractTrackingNumber (asc ''label.pdf'') (asc ''92051234567890123456'')) = None"
  by (simp add: extractTrackingNumber_def trackingPatterns_def uspsFormat_def uspsGroup_def fileNameFormat_def basename_eval
      regex_eval char_eval)


section \<open>The tracking number in the file name\<close>

lemma fileNameFormat_iff:
  "match b fileNameFormat \<noteq> None \<longleftrightarrow> list_all is_digit b \<and> 20 \<le> length b \<and> length b \<le> 22"
proof
  assume "match b fileNameFormat \<noteq> None"
  then obtain m where "exec_from False (Seq Bol (Seq (Range 20 22 d) Eol)) [] b = Some m"
    by (auto simp: match_def fileNameFormat_def)
  from exec_from_Some[OF this] obtain u v y ys where
    uv: "b = u @ v" and y: "matches False (Seq Bol (Seq (Range 20 22 d) Eol)) (MState (rev u @ []) v None) = y # ys"
    by blast
  from y have "y \<in> set (matches False (Seq Bol (Seq (Range 20 22 d) Eol)) (MState (rev u) v None))" by simp
  from matches_eats[OF this] obtain w where "eats False (Seq Bol (Seq (Range 20 22 d) Eol)) (MState (rev u) v None) w y"
    by blast
  then obtain w' where u: "u = []" and e: "eats False (Range 20 22 d) (MState [] v None) w' y" and r: "rest y = []"
    by (auto simp: eats_Seq eats_Bol eats_Eol)
  from e r have "v = w'" by (simp add: eats_def)
  with eats_digits[OF e] uv u show "list_all is_digit b \<and> 20 \<le> length b \<and> length b \<le> 22" by simp
next
  assume a: "list_all is_digit b \<and> 20 \<le> length b \<and> length b \<le> 22"
  then have "MState (rev b @ []) [] None \<in> set (matches False (Range 20 22 d) (MState [] (b @ []) None))"
    by (intro digits_eaten) auto
  then have r: "MState (rev b) [] None \<in> set (matches False (Range 20 22 d) (MState [] b None))"
    by simp
  have e: "MState (rev b) [] None \<in> set (matches False Eol (MState (rev b) [] None))"
    by simp
  from r e have "MState (rev b) [] None \<in> set (matches False (Seq (Range 20 22 d) Eol) (MState [] b None))"
    unfolding matches.simps(3) set_concat set_map by blast
  moreover have "MState [] b None \<in> set (matches False Bol (MState [] b None))"
    by simp
  ultimately have "MState (rev b) [] None \<in> set (matches False (Seq Bol (Seq (Range 20 22 d) Eol)) (MState [] b None))"
    unfolding matches.simps(3)[of False Bol] set_concat set_map by blast
  then have ne: "matches False (Seq Bol (Seq (Range 20 22 d) Eol)) (MState [] b None) \<noteq> []"
    by (metis empty_iff empty_set)
  have "exec_from False (Seq Bol (Seq (Range 20 22 d) Eol)) [] b \<noteq> None"
  proof
    assume "exec_from False (Seq Bol (Seq (Range 20 22 d) Eol)) [] b = None"
    then have "matches False (Seq Bol (Seq (Range 20 22 d) Eol)) (MState (rev [] @ []) b None) = []"
      unfolding exec_from_None by blast
    with ne show False by (simp del: matches.simps)
  qed
  then show "match b fileNameFormat \<noteq> None"
    by (simp add: match_def fileNameFormat_def)
qed

lemma findInText_None: "findInText pdfText trackingPatterns = None \<longleftrightarrow> match pdfText uspsFormat = None"
  by (simp add: trackingPatterns_def split: option.splits)

lemma fallback:
  assumes "findInText pdfText trackingPatterns = None"
  shows "snd (extractTrackingNumber fileName pdfText) =
           (let b = basename fileName (asc ''.pdf'')
            in if list_all is_digit b \<and> 20 \<le> length b \<and> length b \<le> 22 then Some b else None)"
  using assms fileNameFormat_iff[of "basename fileName (asc ''.pdf'')"]
  by (auto simp: extractTrackingNumber_def Let_def)

text \<open>
  C6. When the pattern is not found in the text, the file name without its directories
  and its \<open>.pdf\<close> extension is the tracking number exactly when it consists of 20 to 22
  digits: \<open>12345678901234567890.pdf\<close> gives \<open>12345678901234567890\<close>, and \<open>label.pdf\<close>
  gives nothing.
\<close>

theorem fileName_fallback:
  assumes "findInText pdfText trackingPatterns = None"
  shows "snd (extractTrackingNumber fileName pdfText) =
           (let b = basename fileName (asc ''.pdf'')
            in if list_all is_digit b \<and> 20 \<le> length b \<and> length b \<le> 22 then Some b else None)
         \<and> snd (extractTrackingNumber (asc ''12345678901234567890.pdf'') pdfText) = Some (asc ''12345678901234567890'')
         \<and> snd (extractTrackingNumber (asc ''label.pdf'') pdfText) = None"
proof -
  have a: "basename (asc ''12345678901234567890.pdf'') (asc ''.pdf'') = asc ''12345678901234567890''"
    by (simp add: basename_eval asc_def)
  have b: "basename (asc ''label.pdf'') (asc ''.pdf'') = asc ''label''"
    by (simp add: basename_eval asc_def)
  have "snd (extractTrackingNumber (asc ''12345678901234567890.pdf'') pdfText) = Some (asc ''12345678901234567890'')"
    unfolding fallback[OF assms] a by (simp add: asc_def is_digit_def)
  moreover have "snd (extractTrackingNumber (asc ''label.pdf'') pdfText) = None"
    unfolding fallback[OF assms] b by (simp add: asc_def is_digit_def)
  ultimately show ?thesis using fallback[OF assms] by blast
qed

theorem fileName_fallback_witness:
  "findInText (asc ''USPS PRIORITY MAIL'') trackingPatterns = None
   \<and> snd (extractTrackingNumber (asc ''/labels/1234567890123456789012.pdf'') (asc ''USPS PRIORITY MAIL''))
       = Some (asc ''1234567890123456789012'')
   \<and> snd (extractTrackingNumber (asc ''12345678901234567890.pdf'') (asc ''USPS PRIORITY MAIL'')) = Some (asc ''12345678901234567890'')
   \<and> snd (extractTrackingNumber (asc ''label.pdf'') (asc ''USPS PRIORITY MAIL'')) = None"
proof -
  have h: "findInText (asc ''USPS PRIORITY MAIL'') trackingPatterns = None"
    by (simp add: trackingPatterns_def uspsFormat_def uspsGroup_def regex_eval char_eval)
  have b: "basename (asc ''/labels/1234567890123456789012.pdf'') (asc ''.pdf'') = asc ''1234567890123456789012''"
    by (simp add: basename_eval asc_def)
  from fileName_fallback[OF h, of "asc ''/labels/1234567890123456789012.pdf''"] h show ?thesis
    unfolding b by (simp add: asc_def is_digit_def)
qed

section \<open>Nothing found\<close>


lemma hasDigitRun_head: "k \<le> length t \<Longrightarrow> list_all is_digit (take k t) \<Longrightarrow> hasDigitRun k t"
  by (cases t) simp_all

lemma hasDigitRun_prefix:
  assumes "list_all is_digit w" and "k \<le> length w"
  shows "hasDigitRun k (w @ t)"
proof (rule hasDigitRun_head)
  from assms(2) show "k \<le> length (w @ t)" by simp
  from assms show "list_all is_digit (take k (w @ t))"
    by (auto simp: list_all_iff dest: in_set_takeD)
qed

lemma hasDigitRun_append: "hasDigitRun k t \<Longrightarrow> hasDigitRun k (u @ t)"
proof (induction u)
  case Nil
  then show ?case by simp
next
  case (Cons a u)
  then show ?case by simp
qed

lemma mustRun_needs:
  "y \<in> set (matches ic r s) \<Longrightarrow> mustRun k r \<Longrightarrow> hasDigitRun k (rest s)"
proof (induction r arbitrary: s y)
  case (Seq a b)
  from Seq.prems(1) obtain m where m: "m \<in> set (matches ic a s)" "y \<in> set (matches ic b m)" by auto
  show ?case
  proof (cases "mustRun k a")
    case True
    from Seq.IH(1)[OF m(1) True] show ?thesis .
  next
    case False
    with Seq.prems(2) have "mustRun k b" by simp
    from Seq.IH(2)[OF m(2) this] have "hasDigitRun k (rest m)" .
    moreover from matches_consumes[OF m(1)] obtain w where "rest s = w @ rest m" by blast
    ultimately show ?thesis by (simp add: hasDigitRun_append)
  qed
next
  case (Alt a b)
  then show ?case by auto
next
  case (Rep r n m)
  from Rep.prems(2) have n: "0 < n" "m \<noteq> Some 0" by simp_all
  show ?case
  proof (cases "mustRun k r")
    case True
    from Rep.prems(1) n obtain z where "z \<in> set (matches ic r s)"
      by (subst (asm) in_matches_Rep) auto
    from Rep.IH[OF this True] show ?thesis .
  next
    case False
    with Rep.prems(2) obtain j where j: "r = Atom Digit" "k \<le> n" "m = Some j" "n \<le> j"
      by (auto split: option.splits)
    from matches_eats[OF Rep.prems(1)] obtain w where w: "eats ic (Rep d n (Some j)) s w y"
      using j by auto
    from eats_digits[OF w j(4)] have "list_all is_digit w" "n \<le> length w" by simp_all
    moreover from w have "rest s = w @ rest y" by (simp add: eats_def)
    ultimately show ?thesis using j(2) by (simp add: hasDigitRun_prefix)
  qed
next
  case (Group r)
  then show ?case by auto
qed simp_all

lemma no_run_no_match:
  assumes "\<not> hasDigitRun k text" and "mustRun k (body p)"
  shows "match text p = None"
proof (rule ccontr)
  assume "match text p \<noteq> None"
  then obtain m where "exec_from (ignoreCase p) (body p) [] text = Some m"
    by (auto simp: match_def)
  from exec_from_Some[OF this] obtain u v y ys where
    uv: "text = u @ v" and y: "matches (ignoreCase p) (body p) (MState (rev u @ []) v None) = y # ys"
    by blast
  from y have "y \<in> set (matches (ignoreCase p) (body p) (MState (rev u @ []) v None))"
    by (simp del: matches.simps)
  from mustRun_needs[OF this assms(2)] have "hasDigitRun k v" by simp
  with uv assms(1) show False by (simp add: hasDigitRun_append)
qed

lemma patterns_mustRun: "\<forall>p \<in> set patterns. mustRun 4 (body p)"
  by (simp add: patterns_def pattern_defs lit_def)

lemma uspsFormat_mustRun: "mustRun 4 (body uspsFormat)"
  by (simp add: uspsFormat_def uspsGroup_def lit_def)

lemma cascade_no_match: "\<forall>p \<in> set ps. match nt p = None \<Longrightarrow> cascade nt ps = ([], None)"
  by (induction ps) auto

lemma firstValidated_None: "(firstValidated nt ps = None) = list_all (\<lambda>p. validated p nt = None) ps"
  by (induction ps) (auto split: option.splits)

lemma printed_patterns: "map toString patterns = attemptedPatterns"
  by (simp add: patterns_def pattern_defs toString_def attemptedPatterns_def asc_def esc_def
      longPrefixPattern_src_def shortPrefixPattern_src_def orderLabel_src_def)

lemma diagnostics_logged:
  "[(ERROR, asc ''No order number found. Text content:''),
    (ERROR, asc ''---Begin Text Content---''),
    (ERROR, nt),
    (ERROR, asc ''---End Text Content---''),
    (ERROR, asc ''Attempted patterns:'')]
   @ map (\<lambda>pattern. (ERROR, asc ''- '' @ toString pattern)) patterns = diagnostics nt"
  unfolding diagnostics_def printed_patterns[symmetric] by (simp add: comp_def)

lemma no_run_normalize: "\<not> hasDigitRun k text \<Longrightarrow> \<not> hasDigitRun k (normalize text)"
proof -
  have d: "is_digit (dashToHyphen c) = is_digit c" for c
    by (simp add: dashToHyphen_def is_digit_def)
  have h: "list_all is_digit (take k (map dashToHyphen xs)) = list_all is_digit (take k xs)" for xs
    by (simp add: take_map list_all_iff d)
  have "hasDigitRun k (map dashToHyphen t) = hasDigitRun k t" for t
  proof (induction t)
    case Nil
    show ?case by simp
  next
    case (Cons a t)
    from h[of "a # t"] Cons show ?case by simp
  qed
  then show "\<not> hasDigitRun k text \<Longrightarrow> \<not> hasDigitRun k (normalize text)"
    by (simp add: normalize_map)
qed

text \<open>
  C9. \<open>extractOrderNumber\<close> returns no order number, as a value, exactly when every
  pattern of the cascade has failed, for want of a match or of a valid candidate; the
  last lines of its log are then the diagnostics: the normalized text and the
  seventeen patterns attempted, as printed. A text without four digits in a row, the
  empty text among them, is such a text: no pattern of either function matches it, and
  the log of \<open>extractOrderNumber\<close> is its first line and the diagnostics.
  \<open>extractTrackingNumber\<close> returns none, as a value, with its line of error, whenever its
  pattern finds nothing in the text and the file name without its extension is not 20 to
  22 digits.
\<close>

theorem notFound_outcomes:
  "(snd (extractOrderNumber text) = None) = list_all (\<lambda>p. validated p (normalize text) = None) patterns
   \<and> (snd (extractOrderNumber text) = None \<longrightarrow>
      (\<exists>l. fst (extractOrderNumber text) = l @ diagnostics (normalize text)))
   \<and> (\<not> hasDigitRun 4 text \<longrightarrow>
        extractOrderNumber text
          = ((INFO, asc ''Attempting to extract order number from text'') # diagnostics (normalize text), None)
        \<and> findInText text trackingPatterns = None)
   \<and> (findInText text trackingPatterns = None
        \<and> \<not> (list_all is_digit (basename fileName (asc ''.pdf''))
               \<and> 20 \<le> length (basename fileName (asc ''.pdf''))
               \<and> length (basename fileName (asc ''.pdf'')) \<le> 22) \<longrightarrow>
        extractTrackingNumber fileName text
          = ([(INFO, asc ''Attempting to extract tracking number''),
              (ERROR, asc ''No valid tracking number found in PDF or filename'')],
             None))"
proof (intro conjI impI)
  show "(snd (extractOrderNumber text) = None) = list_all (\<lambda>p. validated p (normalize text) = None) patterns"
    unfolding extractOrderNumber_cascade cascade_firstValidated by (rule firstValidated_None)
next
  assume "snd (extractOrderNumber text) = None"
  then have "\<exists>l. fst (extractOrderNumber text) =
           l @ ([(ERROR, asc ''No order number found. Text content:''),
                (ERROR, asc ''---Begin Text Content---''),
                (ERROR, normalize text),
                (ERROR, asc ''---End Text Content---''),
                (ERROR, asc ''Attempted patterns:'')]
             @ map (\<lambda>pattern. (ERROR, asc ''- '' @ toString pattern)) patterns)"
    by (auto simp: extractOrderNumber_def Let_def split: prod.splits option.splits)
  then show "\<exists>l. fst (extractOrderNumber text) = l @ diagnostics (normalize text)"
    unfolding diagnostics_logged .
next
  assume nr: "\<not> hasDigitRun 4 text"
  then have nd: "\<not> hasDigitRun 4 (normalize text)" by (rule no_run_normalize)
  have "\<forall>p \<in> set patterns. match (normalize text) p = None"
    using no_run_no_match[OF nd] patterns_mustRun by blast
  then have "cascade (normalize text) patterns = ([], None)" by (rule cascade_no_match)
  then have "extractOrderNumber text =
           ((INFO, asc ''Attempting to extract order number from text'')
            # ([(ERROR, asc ''No order number found. Text content:''),
             (ERROR, asc ''---Begin Text Content---''),
             (ERROR, normalize text),
             (ERROR, asc ''---End Text Content---''),
             (ERROR, asc ''Attempted patterns:'')]
            @ map (\<lambda>pattern. (ERROR, asc ''- '' @ toString pattern)) patterns),
            None)"
    by (simp add: extractOrderNumber_def Let_def)
  then show "extractOrderNumber text
          = ((INFO, asc ''Attempting to extract order number from text'') # diagnostics (normalize text), None)"
    unfolding diagnostics_logged .
  show "findInText text trackingPatterns = None"
    using no_run_no_match[OF nr uspsFormat_mustRun] by (simp add: trackingPatterns_def)
next
  assume a: "findInText text trackingPatterns = None
        \<and> \<not> (list_all is_digit (basename fileName (asc ''.pdf''))
               \<and> 20 \<le> length (basename fileName (asc ''.pdf''))
               \<and> length (basename fileName (asc ''.pdf'')) \<le> 22)"
  then have "match (basename fileName (asc ''.pdf'')) fileNameFormat = None"
    using fileNameFormat_iff[of "basename fileName (asc ''.pdf'')"] by blast
  with a show "extractTrackingNumber fileName text
          = ([(INFO, asc ''Attempting to extract tracking number''),
              (ERROR, asc ''No valid tracking number found in PDF or filename'')],
             None)"
    by (simp add: extractTrackingNumber_def Let_def)
qed


theorem notFound_outcomes_witness:
  "snd (extractOrderNumber (asc ''Invoice 123456789'')) = None
   \<and> list_all (\<lambda>p. validated p (normalize (asc ''Invoice 123456789'')) = None) patterns
   \<and> (\<exists>l. fst (extractOrderNumber (asc ''Invoice 123456789''))
            = l @ diagnostics (normalize (asc ''Invoice 123456789'')))
   \<and> \<not> hasDigitRun 4 (asc ''Ship to: 123 Main St'')
   \<and> extractOrderNumber (asc ''Ship to: 123 Main St'')
       = ((INFO, asc ''Attempting to extract order number from text'')
          # diagnostics (normalize (asc ''Ship to: 123 Main St'')), None)
   \<and> findInText (asc ''Ship to: 123 Main St'') trackingPatterns = None
   \<and> \<not> list_all is_digit (basename (asc ''label.pdf'') (asc ''.pdf''))
   \<and> extractTrackingNumber (asc ''label.pdf'') (asc ''Ship to: 123 Main St'')
       = ([(INFO, asc ''Attempting to extract tracking number''),
           (ERROR, asc ''No valid tracking number found in PDF or filename'')],
          None)
   \<and> extractOrderNumber [] = ((INFO, asc ''Attempting to extract order number from text'') # diagnostics [], None)"
proof -
  have a: "snd (extractOrderNumber (asc ''Invoice 123456789'')) = None"
    by (simp add: order_eval pattern_defs regex_eval char_eval)
  have b: "\<not> hasDigitRun 4 (asc ''Ship to: 123 Main St'')"
    by (simp add: asc_def is_digit_def)
  have c: "\<not> list_all is_digit (basename (asc ''label.pdf'') (asc ''.pdf''))"
    by (simp add: basename_eval asc_def is_digit_def)
  have e: "\<not> hasDigitRun 4 []" by simp
  have n: "normalize [] = []"
    by (simp add: normalize_map)
  from notFound_outcomes[of "asc ''Invoice 123456789''" "asc ''label.pdf''"]
    notFound_outcomes[of "asc ''Ship to: 123 Main St''" "asc ''label.pdf''"]
    notFound_outcomes[of "[]" "asc ''label.pdf''"] a b c e n
  show ?thesis by simp
qed


section \<open>A pattern is abandoned after its leftmost match\<close>

text \<open>
  \<open>match\<close> reports the leftmost match of a pattern only. When the candidate of that
  match is not valid, the cascade goes on with the next pattern.
\<close>

lemma cascade_abandons:
  "match nt p = Some m \<Longrightarrow> \<not> isValidFormat (candidate m) \<Longrightarrow> snd (cascade nt (p # ps)) = snd (cascade nt ps)"
  by (simp add: Let_def split: prod.splits)

text \<open>
  C10. In the text \<open>2000000289 2111111111-1\<close> the leftmost match of the pattern
  \<open>twoPlus9\<close> is \<open>2000000289\<close>, which is not valid. The later \<open>2111111111-1\<close> is
  valid, is returned when it stands alone, and is matched by no pattern but \<open>twoPlus9\<close>;
  yet for the whole text no order number is found.
\<close>

theorem leftmost_match_only:
  "snd (extractOrderNumber (asc ''2000000289 2111111111-1'')) = None
   \<and> map_option candidate (match (asc ''2000000289 2111111111-1'') twoPlus9) = Some (asc ''2000000289'')
   \<and> \<not> isValidFormat (asc ''2000000289'')
   \<and> isValidFormat (asc ''2111111111-1'')
   \<and> snd (extractOrderNumber (asc ''2111111111-1'')) = Some (asc ''2111111111-1'')
   \<and> map (\<lambda>p. map_option candidate (match (asc ''2111111111-1'') p)) patterns
       = [None, Some (asc ''2111111111-1''), None, None, None, None, None, None, None, None, None, None, None,
          None, None, None, None]"
proof -
  have "snd (extractOrderNumber (asc ''2000000289 2111111111-1'')) = None"
    by (simp add: order_eval pattern_defs regex_eval char_eval)
  moreover have "map_option candidate (match (asc ''2000000289 2111111111-1'') twoPlus9) = Some (asc ''2000000289'')"
    by (simp add: order_eval pattern_defs regex_eval char_eval)
  moreover have "\<not> isValidFormat (asc ''2000000289'')" and "isValidFormat (asc ''2111111111-1'')"
    by (simp_all add: order_eval pattern_defs regex_eval char_eval)
  moreover have "snd (extractOrderNumber (asc ''2111111111-1'')) = Some (asc ''2111111111-1'')"
    by (simp add: order_eval pattern_defs regex_eval char_eval)
  moreover have "map (\<lambda>p. map_option candidate (match (asc ''2111111111-1'') p)) patterns
       = [None, Some (asc ''2111111111-1''), None, None, None, None, None, None, None, None, None, None, None,
          None, None, None, None]"
    by (simp add: order_eval pattern_defs regex_eval char_eval)
  ultimately show ?thesis by blast
qed

end
